theory Spec2Isabelle
  imports Complex_Main "HOL-Library.Multiset"
begin

section \<open>Moves and their replay\<close>

text \<open>
  The source file is \<^verbatim>\<open>src/components/SortingVisualizer.js\<close>. Every sort engine
  records the elementary mutations it performs as objects
  \<^verbatim>\<open>{ indices: [i, j], type: "swap" }\<close> or
  \<^verbatim>\<open>{ indices: [i], type: "overwrite", value: v }\<close>. Indices are JavaScript
  numbers, so they are integers here; that an index is never negative is something to be
  proved, not assumed. Array values are the numbers produced by \<^verbatim>\<open>Math.random()\<close>;
  the engines only compare them with \<^verbatim>\<open><\<close> and \<^verbatim>\<open>>\<close>, so they are
  modelled by any linear order.
\<close>

datatype 'a move = Swap int int | Overwrite int 'a

text \<open>\<^verbatim>\<open>[array[i], array[j]] = [array[j], array[i]]\<close>\<close>

definition swap :: "nat \<Rightarrow> nat \<Rightarrow> 'a list \<Rightarrow> 'a list" where
  "swap i j array = array[i := array ! j, j := array ! i]"

definition inBounds :: "nat \<Rightarrow> int \<Rightarrow> bool" where
  "inBounds n i = (0 \<le> i \<and> i < int n)"

text \<open>
  The mutation part of \<^verbatim>\<open>animate\<close> (lines 80--84). An index outside the array would
  make JavaScript read \<^verbatim>\<open>undefined\<close> or grow the array; the array would stop being
  a sequence of numbers of the same length, and the model returns \<open>None\<close> there.
\<close>

fun applyMove :: "'a move \<Rightarrow> 'a list \<Rightarrow> 'a list option" where
  "applyMove (Swap i j) array =
     (if inBounds (length array) i \<and> inBounds (length array) j
      then Some (swap (nat i) (nat j) array) else None)"
| "applyMove (Overwrite i v) array =
     (if inBounds (length array) i then Some (array[nat i := v]) else None)"

text \<open>Replaying a whole log, one move after the other, in log order.\<close>

fun replay :: "'a move list \<Rightarrow> 'a list \<Rightarrow> 'a list option" where
  "replay [] array = Some array"
| "replay (m # ms) array =
     (case applyMove m array of None \<Rightarrow> None | Some array' \<Rightarrow> replay ms array')"

section \<open>Heap sort\<close>

text \<open>
  \<^verbatim>\<open>heapify(array, i, max, moves)\<close>, lines 207--225. The engine mutates its array and
  pushes onto the shared log; the model returns both. The parameter \<^verbatim>\<open>max\<close> is
  written \<open>mx\<close>. The three assignments to \<^verbatim>\<open>largest\<close> are the three bindings
  below. Both callers pass \<open>i < max\<close> and \<open>max\<close> at most the length of the array, and
  a child is read only after it has been compared with \<open>max\<close>, so every read is inside
  the array.
\<close>

function heapify :: "'a::linorder list \<Rightarrow> nat \<Rightarrow> nat \<Rightarrow> 'a move list \<Rightarrow> 'a list \<times> 'a move list" where
  "heapify array i mx moves =
     (let left = 2 * i + 1;
          right = 2 * i + 2;
          largest1 = (if left < mx \<and> array ! left > array ! i then left else i);
          largest = (if right < mx \<and> array ! right > array ! largest1 then right else largest1)
      in if largest \<noteq> i
         then heapify (swap i largest array) largest mx (moves @ [Swap (int i) (int largest)])
         else (array, moves))"
  by pat_completeness auto
termination
  by (relation "measure (\<lambda>(array, i, mx, moves). mx - i)") (auto simp: Let_def split: if_splits)

declare heapify.simps [simp del]

text \<open>
  \<^verbatim>\<open>buildMaxHeap\<close>, lines 201--205: the loop counter starts at
  \<^verbatim>\<open>Math.floor(array.length / 2) - 1\<close>, which is \<open>-1\<close> for arrays of length 0 and 1,
  and runs down while \<^verbatim>\<open>i >= 0\<close>.
\<close>

function buildMaxHeapLoop :: "int \<Rightarrow> 'a::linorder list \<Rightarrow> 'a move list \<Rightarrow> 'a list \<times> 'a move list" where
  "buildMaxHeapLoop i array moves =
     (if i \<ge> 0
      then (case heapify array (nat i) (length array) moves of
              (array', moves') \<Rightarrow> buildMaxHeapLoop (i - 1) array' moves')
      else (array, moves))"
  by pat_completeness auto
termination
  by (relation "measure (\<lambda>(i, array, moves). nat (i + 1))") auto

declare buildMaxHeapLoop.simps [simp del]

definition buildMaxHeap :: "'a::linorder list \<Rightarrow> 'a move list \<Rightarrow> 'a list \<times> 'a move list" where
  "buildMaxHeap array moves = buildMaxHeapLoop (int (length array div 2) - 1) array moves"

text \<open>
  \<^verbatim>\<open>heapSort\<close>, lines 190--199. The loop variable \<^verbatim>\<open>end\<close> is written \<open>e\<close>.
\<close>

function heapSortLoop :: "int \<Rightarrow> 'a::linorder list \<Rightarrow> 'a move list \<Rightarrow> 'a list \<times> 'a move list" where
  "heapSortLoop e array moves =
     (if e > 0
      then (case heapify (swap 0 (nat e) array) 0 (nat e) (moves @ [Swap 0 e]) of
              (array', moves') \<Rightarrow> heapSortLoop (e - 1) array' moves')
      else (array, moves))"
  by pat_completeness auto
termination
  by (relation "measure (\<lambda>(e, array, moves). nat e)") auto

declare heapSortLoop.simps [simp del]

definition heapSortRun :: "'a::linorder list \<Rightarrow> 'a list \<times> 'a move list" where
  "heapSortRun array =
     (case buildMaxHeap array [] of
        (array', moves') \<Rightarrow> heapSortLoop (int (length array) - 1) array' moves')"

text \<open>The engine returns the log; \<open>heapSortRun\<close> also gives the array it leaves behind.\<close>

definition heapSort :: "'a::linorder list \<Rightarrow> 'a move list" where
  "heapSort array = snd (heapSortRun array)"

section \<open>Bubble sort\<close>

text \<open>
  \<^verbatim>\<open>bubbleSort\<close>, lines 129--143. \<open>bubblePass\<close> is the inner \<^verbatim>\<open>for\<close> loop;
  \<open>bubbleLoop\<close> is the \<^verbatim>\<open>do ... while (swapped)\<close> loop, whose termination is
  not evident from its form: it is a partial function, \<open>None\<close> standing for a run
  that never returns.
\<close>

function bubblePass :: "nat \<Rightarrow> 'a::linorder list \<Rightarrow> 'a move list \<Rightarrow> bool \<Rightarrow> 'a list \<times> 'a move list \<times> bool" where
  "bubblePass i array moves swapped =
     (if i < length array
      then (if array ! (i - 1) > array ! i
            then bubblePass (i + 1) (swap (i - 1) i array)
                   (moves @ [Swap (int i - 1) (int i)]) True
            else bubblePass (i + 1) array moves swapped)
      else (array, moves, swapped))"
  by pat_completeness auto
termination
  by (relation "measure (\<lambda>(i, array, moves, swapped). length array - i)") (auto simp: swap_def)

declare bubblePass.simps [simp del]

partial_function (option) bubbleLoop :: "'a::linorder list \<Rightarrow> 'a move list \<Rightarrow> ('a list \<times> 'a move list) option" where
  "bubbleLoop array moves =
     (case bubblePass 1 array moves False of
        (array', moves', swapped) \<Rightarrow>
          if swapped then bubbleLoop array' moves' else Some (array', moves'))"

declare bubbleLoop.simps [code]

definition bubbleSort :: "'a::linorder list \<Rightarrow> 'a move list option" where
  "bubbleSort array = map_option snd (bubbleLoop array [])"

section \<open>Merge sort\<close>

text \<open>
  \<^verbatim>\<open>merge\<close>, lines 155--188: three \<^verbatim>\<open>while\<close> loops over the shared counters. The
  write \<^verbatim>\<open>originalArray[originalIndex] = v\<close> replaces an element, or appends one when
  the index is the length of the array (the counter grows by one from zero, so it never
  skips a position). The comparison is the only operation on the values, so the
  definitions ask for nothing more than \<open><\<close>: this is what lets elements that are equal
  in value carry a tag of origin.
\<close>

definition store :: "'a list \<Rightarrow> nat \<Rightarrow> 'a \<Rightarrow> 'a list" where
  "store array i v = (if i < length array then array[i := v] else array @ [v])"

function mergeBoth :: "'a::ord list \<Rightarrow> 'a list \<Rightarrow> nat \<Rightarrow> nat \<Rightarrow> nat \<Rightarrow> 'a list \<Rightarrow> 'a move list
    \<Rightarrow> nat \<times> nat \<times> nat \<times> 'a list \<times> 'a move list" where
  "mergeBoth left right leftIndex rightIndex originalIndex originalArray moves =
     (if leftIndex < length left \<and> rightIndex < length right
      then (if left ! leftIndex < right ! rightIndex
            then mergeBoth left right (leftIndex + 1) rightIndex (originalIndex + 1)
                   (store originalArray originalIndex (left ! leftIndex))
                   (moves @ [Overwrite (int originalIndex) (left ! leftIndex)])
            else mergeBoth left right leftIndex (rightIndex + 1) (originalIndex + 1)
                   (store originalArray originalIndex (right ! rightIndex))
                   (moves @ [Overwrite (int originalIndex) (right ! rightIndex)]))
      else (leftIndex, rightIndex, originalIndex, originalArray, moves))"
  by pat_completeness auto
termination
  by (relation "measure (\<lambda>(left, right, li, ri, oi, oa, ms). (length left - li) + (length right - ri))")
     auto

declare mergeBoth.simps [simp del]

text \<open>The second and the third loop copy what is left of one half.\<close>

function mergeRest :: "'a list \<Rightarrow> nat \<Rightarrow> nat \<Rightarrow> 'a list \<Rightarrow> 'a move list \<Rightarrow> nat \<times> 'a list \<times> 'a move list" where
  "mergeRest half halfIndex originalIndex originalArray moves =
     (if halfIndex < length half
      then mergeRest half (halfIndex + 1) (originalIndex + 1)
             (store originalArray originalIndex (half ! halfIndex))
             (moves @ [Overwrite (int originalIndex) (half ! halfIndex)])
      else (originalIndex, originalArray, moves))"
  by pat_completeness auto
termination
  by (relation "measure (\<lambda>(half, hi, oi, oa, ms). length half - hi)") auto

declare mergeRest.simps [simp del]

definition merge :: "'a::ord list \<Rightarrow> 'a list \<Rightarrow> 'a list \<Rightarrow> 'a move list \<Rightarrow> 'a list \<times> 'a move list" where
  "merge left right originalArray moves =
     (case mergeBoth left right 0 0 0 originalArray moves of
        (leftIndex, rightIndex, originalIndex, array1, moves1) \<Rightarrow>
          (case mergeRest left leftIndex originalIndex array1 moves1 of
             (originalIndex2, array2, moves2) \<Rightarrow>
               (case mergeRest right rightIndex originalIndex2 array2 moves2 of
                  (originalIndex3, array3, moves3) \<Rightarrow> (array3, moves3))))"

text \<open>
  \<^verbatim>\<open>mergeSort\<close>, lines 145--153. \<^verbatim>\<open>array.slice(0, mid)\<close> and
  \<^verbatim>\<open>array.slice(mid)\<close> are fresh arrays, \<open>take\<close> and \<open>drop\<close>.
\<close>

function mergeSort :: "'a::ord list \<Rightarrow> 'a move list \<Rightarrow> 'a list \<times> 'a move list" where
  "mergeSort array moves =
     (if length array \<le> 1 then (array, moves)
      else (let mid = length array div 2 in
            case mergeSort (take mid array) moves of
              (left, moves1) \<Rightarrow>
                (case mergeSort (drop mid array) moves1 of
                   (right, moves2) \<Rightarrow> merge left right array moves2)))"
  by pat_completeness auto
termination
  by (relation "measure (\<lambda>(array, moves). length array)") auto

declare mergeSort.simps [simp del]

section \<open>Quick sort\<close>

text \<open>
  \<^verbatim>\<open>partition\<close>, lines 241--254, here \<open>partition_lomuto\<close> (\<open>partition\<close> is a
  function of the list library). \<^verbatim>\<open>i\<close> starts at \<^verbatim>\<open>low - 1\<close>, which is
  \<open>-1\<close> for the first range, and \<^verbatim>\<open>high\<close> is \<open>-1\<close> for the empty array: the counters
  are integers. \<^verbatim>\<open>quickSortHelper\<close> calls \<^verbatim>\<open>partition\<close> only when
  \<open>low < high\<close>, on ranges with \<open>0 \<le> low\<close> and \<open>high\<close> below the length of the array,
  so the positions read and swapped are inside the array.
\<close>

function partitionLoop :: "'a::linorder \<Rightarrow> int \<Rightarrow> int \<Rightarrow> int \<Rightarrow> 'a list \<Rightarrow> 'a move list
    \<Rightarrow> int \<times> 'a list \<times> 'a move list" where
  "partitionLoop pivot high i j array moves =
     (if j < high
      then (if array ! nat j < pivot
            then partitionLoop pivot high (i + 1) (j + 1)
                   (swap (nat (i + 1)) (nat j) array) (moves @ [Swap (i + 1) j])
            else partitionLoop pivot high i (j + 1) array moves)
      else (i, array, moves))"
  by pat_completeness auto
termination
  by (relation "measure (\<lambda>(pivot, high, i, j, array, moves). nat (high - j))") auto

declare partitionLoop.simps [simp del]

definition partition_lomuto :: "'a::linorder list \<Rightarrow> int \<Rightarrow> int \<Rightarrow> 'a move list \<Rightarrow> int \<times> 'a list \<times> 'a move list" where
  "partition_lomuto array low high moves =
     (case partitionLoop (array ! nat high) high (low - 1) low array moves of
        (i, array', moves') \<Rightarrow>
          (i + 1, swap (nat (i + 1)) (nat high) array', moves' @ [Swap (i + 1) high]))"

text \<open>
  The pivot index returned by \<open>partition_lomuto\<close> lies in the range it was given; the
  recursion of \<^verbatim>\<open>quickSortHelper\<close> ends for that reason.
\<close>

lemma partitionLoop_index:
  "i < j \<Longrightarrow> j \<le> high \<Longrightarrow> partitionLoop pivot high i j array moves = (i', array', moves')
     \<Longrightarrow> i \<le> i' \<and> i' < high"
proof (induction pivot high i j array moves rule: partitionLoop.induct)
  case (1 pivot high i j array moves)
  note unfold = partitionLoop.simps [of pivot high i j array moves]
  show ?case
  proof (cases "j < high")
    case False
    with "1.prems" unfold show ?thesis by simp
  next
    case True
    show ?thesis
    proof (cases "array ! nat j < pivot")
      case True
      with \<open>j < high\<close> "1.prems" unfold "1.IH"(1) show ?thesis by fastforce
    next
      case False
      with \<open>j < high\<close> "1.prems" unfold "1.IH"(2) show ?thesis by fastforce
    qed
  qed
qed

lemma partition_index:
  "low \<le> high \<Longrightarrow> partition_lomuto array low high moves = (p, array', moves') \<Longrightarrow> low \<le> p \<and> p \<le> high"
  unfolding partition_lomuto_def
  by (auto split: prod.splits dest: partitionLoop_index [rotated 2])

text \<open>\<^verbatim>\<open>quickSortHelper\<close> and \<^verbatim>\<open>quickSort\<close>, lines 227--239.\<close>

function quickSortHelper :: "'a::linorder list \<Rightarrow> int \<Rightarrow> int \<Rightarrow> 'a move list \<Rightarrow> 'a list \<times> 'a move list" where
  "quickSortHelper array low high moves =
     (if low < high
      then (case partition_lomuto array low high moves of
              (pivotIndex, array1, moves1) \<Rightarrow>
                (case quickSortHelper array1 low (pivotIndex - 1) moves1 of
                   (array2, moves2) \<Rightarrow> quickSortHelper array2 (pivotIndex + 1) high moves2))
      else (array, moves))"
  by pat_completeness auto
termination
  by (relation "measure (\<lambda>(array, low, high, moves). nat (high - low))")
     (auto dest!: partition_index [OF less_imp_le sym])

declare quickSortHelper.simps [simp del]

definition quickSortRun :: "'a::linorder list \<Rightarrow> 'a list \<times> 'a move list" where
  "quickSortRun array = quickSortHelper array 0 (int (length array) - 1) []"

definition quickSort :: "'a::linorder list \<Rightarrow> 'a move list" where
  "quickSort array = snd (quickSortRun array)"

section \<open>Insertion sort\<close>

text \<open>
  \<^verbatim>\<open>insertionSort\<close>, lines 256--270. The inner \<^verbatim>\<open>while\<close> loop shifts an element
  one place to the right (\<^verbatim>\<open>array[j + 1] = array[j]\<close>) but records a swap; \<^verbatim>\<open>j\<close>
  ends at \<open>-1\<close> when the key is the smallest so far.
\<close>

function insertionWhile :: "'a::linorder \<Rightarrow> int \<Rightarrow> 'a list \<Rightarrow> 'a move list \<Rightarrow> int \<times> 'a list \<times> 'a move list" where
  "insertionWhile key j array moves =
     (if j \<ge> 0 \<and> array ! nat j > key
      then insertionWhile key (j - 1) (array[nat (j + 1) := array ! nat j])
             (moves @ [Swap (j + 1) j])
      else (j, array, moves))"
  by pat_completeness auto
termination
  by (relation "measure (\<lambda>(key, j, array, moves). nat (j + 1))") auto

declare insertionWhile.simps [simp del]

lemma insertionWhile_length:
  "insertionWhile key j array moves = (j', array', moves') \<Longrightarrow> length array' = length array"
proof (induction key j array moves rule: insertionWhile.induct)
  case (1 key j array moves)
  note unfold = insertionWhile.simps [of key j array moves]
  show ?case
  proof (cases "j \<ge> 0 \<and> array ! nat j > key")
    case True
    with "1.prems" unfold "1.IH" show ?thesis by simp
  next
    case False
    with "1.prems" unfold show ?thesis by auto
  qed
qed

function insertionFor :: "nat \<Rightarrow> 'a::linorder list \<Rightarrow> 'a move list \<Rightarrow> 'a list \<times> 'a move list" where
  "insertionFor i array moves =
     (if i < length array
      then (let key = array ! i in
            case insertionWhile key (int i - 1) array moves of
              (j, array', moves') \<Rightarrow>
                insertionFor (i + 1) (array'[nat (j + 1) := key])
                  (moves' @ [Overwrite (j + 1) key]))
      else (array, moves))"
  by pat_completeness auto
termination
  by (relation "measure (\<lambda>(i, array, moves). length array - i)")
     (auto dest!: insertionWhile_length [OF sym])

declare insertionFor.simps [simp del]

definition insertionSortRun :: "'a::linorder list \<Rightarrow> 'a list \<times> 'a move list" where
  "insertionSortRun array = insertionFor 1 array []"

definition insertionSort :: "'a::linorder list \<Rightarrow> 'a move list" where
  "insertionSort array = snd (insertionSortRun array)"

section \<open>Selection sort\<close>

text \<open>\<^verbatim>\<open>selectionSort\<close>, lines 272--287; \<open>selectionMin\<close> is the inner scan.\<close>

function selectionMin :: "nat \<Rightarrow> nat \<Rightarrow> 'a::linorder list \<Rightarrow> nat" where
  "selectionMin j minIndex array =
     (if j < length array
      then selectionMin (j + 1) (if array ! j < array ! minIndex then j else minIndex) array
      else minIndex)"
  by pat_completeness auto
termination
  by (relation "measure (\<lambda>(j, minIndex, array). length array - j)") auto

declare selectionMin.simps [simp del]

function selectionLoop :: "nat \<Rightarrow> 'a::linorder list \<Rightarrow> 'a move list \<Rightarrow> 'a list \<times> 'a move list" where
  "selectionLoop i array moves =
     (if int i < int (length array) - 1
      then (let minIndex = selectionMin (i + 1) i array in
            if minIndex \<noteq> i
            then selectionLoop (i + 1) (swap i minIndex array)
                   (moves @ [Swap (int i) (int minIndex)])
            else selectionLoop (i + 1) array moves)
      else (array, moves))"
  by pat_completeness auto
termination
  by (relation "measure (\<lambda>(i, array, moves). length array - i)") (auto simp: swap_def)

declare selectionLoop.simps [simp del]

definition selectionSortRun :: "'a::linorder list \<Rightarrow> 'a list \<times> 'a move list" where
  "selectionSortRun array = selectionLoop 0 array []"

definition selectionSort :: "'a::linorder list \<Rightarrow> 'a move list" where
  "selectionSort array = snd (selectionSortRun array)"

section \<open>Playback\<close>

text \<open>
  \<^verbatim>\<open>sortAndAnimate\<close>, lines 99--126: the \<^verbatim>\<open>switch\<close> on the algorithm name. A name
  that matches no \<^verbatim>\<open>case\<close> reaches \<^verbatim>\<open>default: break\<close> and leaves the initial
  \<^verbatim>\<open>sortingMoves = []\<close>. The result is \<open>None\<close> only if \<open>bubbleSort\<close> does not
  return.
\<close>

definition sortingMoves :: "string \<Rightarrow> 'a::linorder list \<Rightarrow> 'a move list option" where
  "sortingMoves algorithm copy =
     (if algorithm = ''bubble'' then bubbleSort copy
      else if algorithm = ''merge'' then Some (snd (mergeSort copy []))
      else if algorithm = ''heap'' then Some (heapSort copy)
      else if algorithm = ''quick'' then Some (quickSort copy)
      else if algorithm = ''insertion'' then Some (insertionSort copy)
      else if algorithm = ''selection'' then Some (selectionSort copy)
      else Some [])"

definition algorithms :: "string list" where
  "algorithms = [''bubble'', ''insertion'', ''selection'', ''heap'', ''quick'', ''merge'']"

section \<open>The arithmetic of JavaScript numbers\<close>

text \<open>
  A JavaScript number is an IEEE 754 double. A finite double is a real number, and the
  result of \<^verbatim>\<open>*\<close> or \<^verbatim>\<open>+\<close> is the exact product or sum rounded to the nearest
  double, ties going to the even significand. \<open>bits n\<close> is the number of binary digits
  of \<open>n\<close>; \<open>binade x\<close> is the exponent \<open>e\<close> with \<open>2^e \<le> x < 2^(e+1)\<close> for a
  positive \<open>x\<close>; a double in that binade is a multiple of \<open>2^(e-52)\<close>, and below
  \<open>2^(-1022)\<close> (the subnormal range) of \<open>2^(-1074)\<close>. A result of magnitude \<open>2^1024\<close>
  or more would be \<^verbatim>\<open>Infinity\<close>; that is not modelled, the numbers of a playback
  being array values in \<open>[0,1)\<close>, products below 500 and sums below 700.
\<close>

fun bits :: "nat \<Rightarrow> nat" where
  "bits n = (if n = 0 then 0 else Suc (bits (n div 2)))"

declare bits.simps [simp del]

definition binade :: "real \<Rightarrow> int" where
  "binade x = (if x \<ge> 1 then int (bits (nat \<lfloor>x\<rfloor>)) - 1
               else - int (bits (nat (\<lceil>1 / x\<rceil> - 1))))"

definition pow2 :: "int \<Rightarrow> real" where
  "pow2 e = (if e \<ge> 0 then 2 ^ nat e else 1 / 2 ^ nat (- e))"

definition roundEven :: "real \<Rightarrow> int" where
  "roundEven y =
     (let f = \<lfloor>y\<rfloor>; r = y - of_int f in
      if r < 1 / 2 then f else if r > 1 / 2 then f + 1 else if even f then f else f + 1)"

definition toDouble :: "real \<Rightarrow> real" where
  "toDouble x =
     (if x = 0 then 0
      else (let ulp = pow2 (max (binade \<bar>x\<bar>) (- 1022) - 52) in
            sgn x * of_int (roundEven (\<bar>x\<bar> / ulp)) * ulp))"

text \<open>\<^verbatim>\<open>x * y\<close> and \<^verbatim>\<open>x + y\<close> on numbers.\<close>

definition dmul :: "real \<Rightarrow> real \<Rightarrow> real" where
  "dmul x y = toDouble (x * y)"

definition dadd :: "real \<Rightarrow> real \<Rightarrow> real" where
  "dadd x y = toDouble (x + y)"

section \<open>The component across events\<close>

text \<open>
  Arrays are objects, and the closures of the component hold them by reference:
  \<open>arrays\<close> is the store of array objects, an address being a position in it, and a new
  object is added at the end. \<open>rendered\<close> is the address of the React state
  \<^verbatim>\<open>array\<close> as the last committed render captured it: this is the array the click
  handlers see. \<open>pending\<close> is the array given to the latest \<^verbatim>\<open>setArray\<close> that no
  render has committed yet. \<open>audioCtx\<close> tells whether the audio context has been
  created; \<open>bars\<close> is what \<^verbatim>\<open>showBars\<close> drew last; \<open>tones\<close> are the frequencies
  given to an oscillator so far; \<open>timers\<close> are the pending \<^verbatim>\<open>setTimeout\<close> callbacks,
  oldest first. Each callback is a call \<^verbatim>\<open>animate(moves)\<close> of the closure that set it,
  so it carries the address of the array this closure captured and the rest of its log.
  All timeouts have the same delay, so they fire in the order in which they were set.
\<close>

record sys =
  arrays :: "real list list"
  rendered :: nat
  pending :: "nat option"
  audioCtx :: bool
  bars :: "real list"
  tones :: "real list"
  timers :: "(nat \<times> real move list) list"

text \<open>\<^verbatim>\<open>playNote\<close>, lines 54--69: without an audio context nothing is played.\<close>

definition playNote :: "real \<Rightarrow> sys \<Rightarrow> sys" where
  "playNote freq s = (if \<not> audioCtx s then s else s\<lparr>tones := tones s @ [freq]\<rparr>)"

text \<open>
  Lines 87--90: \<^verbatim>\<open>playNote(200 + array[i] * 500)\<close> and, for a swap,
  \<^verbatim>\<open>playNote(200 + array[j] * 500)\<close>, on the array after the mutation.
  \<^verbatim>\<open>const [i, j] = move.indices\<close> gives the two indices of a swap and the only index
  of an overwrite.
\<close>

fun playNotes :: "real move \<Rightarrow> real list \<Rightarrow> sys \<Rightarrow> sys" where
  "playNotes (Swap i j) array s =
     playNote (dadd 200 (dmul (array ! nat j) 500))
       (playNote (dadd 200 (dmul (array ! nat i) 500)) s)"
| "playNotes (Overwrite i v) array s = playNote (dadd 200 (dmul (array ! nat i) 500)) s"

text \<open>
  \<^verbatim>\<open>animate\<close>, lines 72--96, run by a closure whose captured array has the address
  \<open>own\<close>. With an empty log it draws the bars and stops. Otherwise it mutates its own
  array in place, hands a fresh copy to \<^verbatim>\<open>setArray\<close> (which only schedules a render),
  plays one note or two, draws the bars and sets the next timeout.
\<close>

definition animate :: "nat \<Rightarrow> real move list \<Rightarrow> sys \<Rightarrow> sys option" where
  "animate own moves s =
     (case moves of
        [] \<Rightarrow> Some (s\<lparr>bars := arrays s ! own\<rparr>)
      | move # rest \<Rightarrow>
          (case applyMove move (arrays s ! own) of
             None \<Rightarrow> None
           | Some array' \<Rightarrow>
               Some ((playNotes move array'
                        (s\<lparr>arrays := (arrays s)[own := array'] @ [array'],
                           pending := Some (length (arrays s))\<rparr>))
                       \<lparr>bars := array', timers := timers s @ [(own, rest)]\<rparr>)))"

text \<open>
  \<^verbatim>\<open>sortAndAnimate\<close>, lines 99--126, as the click handler of the last committed
  render: the engine runs on a copy of the array this render captured (the copy is seen
  by the engine alone), and \<^verbatim>\<open>animate\<close> starts at once on the captured array itself.
\<close>

definition sortAndAnimate :: "string \<Rightarrow> sys \<Rightarrow> sys option" where
  "sortAndAnimate algorithm s =
     (case sortingMoves algorithm (arrays s ! rendered s) of
        None \<Rightarrow> None
      | Some moves \<Rightarrow> animate (rendered s) moves s)"

text \<open>The oldest pending timeout fires.\<close>

definition fire :: "sys \<Rightarrow> sys option" where
  "fire s =
     (case timers s of
        [] \<Rightarrow> Some s
      | (own, moves) # rest \<Rightarrow> animate own moves (s\<lparr>timers := rest\<rparr>))"

text \<open>
  React commits a render: the component function runs again and its new closures capture
  the array given to the latest \<^verbatim>\<open>setArray\<close>. When this happens relative to the
  timeouts and the clicks is not fixed by the component, so it is an event of its own.
\<close>

definition render :: "sys \<Rightarrow> sys" where
  "render s = (case pending s of None \<Rightarrow> s | Some p \<Rightarrow> s\<lparr>rendered := p, pending := None\<rparr>)"

datatype event = Click string | Timeout | Render

fun step :: "event \<Rightarrow> sys \<Rightarrow> sys option" where
  "step (Click algorithm) s = sortAndAnimate algorithm s"
| "step Timeout s = fire s"
| "step Render s = Some (render s)"

fun run :: "event list \<Rightarrow> sys \<Rightarrow> sys option" where
  "run [] s = Some s"
| "run (e # es) s = (case step e s of None \<Rightarrow> None | Some s' \<Rightarrow> run es s')"

text \<open>
  While the playback of one closure runs, the copy it published last is either still
  waiting for a render or is the array of the last committed render; in both cases it is
  an object other than the closure's own array and has the same contents.
\<close>

definition published :: "nat \<Rightarrow> sys \<Rightarrow> bool" where
  "published own s =
     (case pending s of
        Some p \<Rightarrow> p < length (arrays s) \<and> p \<noteq> own \<and> arrays s ! p = arrays s ! own
      | None \<Rightarrow> rendered s < length (arrays s) \<and> rendered s \<noteq> own
                \<and> arrays s ! rendered s = arrays s ! own)"

section \<open>Elements tagged with their origin\<close>

text \<open>
  For the question of stability, values that compare equal must be told apart: a value
  with a tag, compared by the value alone.
\<close>

datatype tagged = Tagged (val: real) (tag: char)

instantiation tagged :: ord
begin

definition less_tagged :: "tagged \<Rightarrow> tagged \<Rightarrow> bool" where
  "less_tagged x y = (val x < val y)"

definition less_eq_tagged :: "tagged \<Rightarrow> tagged \<Rightarrow> bool" where
  "less_eq_tagged x y = (val x \<le> val y)"

instance ..

end

section \<open>Measures on arrays and logs\<close>

text \<open>
  What the properties below speak about: whether the indices of a move lie in an array of
  length \<open>n\<close>, whether a move is a swap, how many moves of each kind a log holds, and the
  number of inversions of an array (pairs of positions whose values are in the wrong
  order).
\<close>

fun moveInBounds :: "nat \<Rightarrow> 'a move \<Rightarrow> bool" where
  "moveInBounds n (Swap i j) = (inBounds n i \<and> inBounds n j)"
| "moveInBounds n (Overwrite i v) = inBounds n i"

fun isSwap :: "'a move \<Rightarrow> bool" where
  "isSwap (Swap i j) = True"
| "isSwap (Overwrite i v) = False"

fun inversions :: "'a::linorder list \<Rightarrow> nat" where
  "inversions [] = 0"
| "inversions (x # xs) = length (filter (\<lambda>y. x > y) xs) + inversions xs"

definition countSwaps :: "'a move list \<Rightarrow> nat" where
  "countSwaps ms = length (filter isSwap ms)"

definition countOverwrites :: "'a move list \<Rightarrow> nat" where
  "countOverwrites ms = length (filter (\<lambda>m. \<not> isSwap m) ms)"

text \<open>
  What the three loops of \<^verbatim>\<open>merge\<close> write, as a list: \<open>merged left right li ri\<close>
  is the sequence of values written from the moment the counters are \<open>li\<close> and \<open>ri\<close>.
  \<open>stores\<close> writes a list of values to consecutive positions, \<open>overwrites\<close> is the
  log of these writes.
\<close>

function merged :: "'a::ord list \<Rightarrow> 'a list \<Rightarrow> nat \<Rightarrow> nat \<Rightarrow> 'a list" where
  "merged left right li ri =
     (if li < length left \<and> ri < length right
      then (if left ! li < right ! ri
            then left ! li # merged left right (li + 1) ri
            else right ! ri # merged left right li (ri + 1))
      else drop li left @ drop ri right)"
  by pat_completeness auto
termination
  by (relation "measure (\<lambda>(left, right, li, ri). (length left - li) + (length right - ri))") auto

declare merged.simps [simp del]

fun stores :: "'a list \<Rightarrow> nat \<Rightarrow> 'a list \<Rightarrow> 'a list" where
  "stores array i [] = array"
| "stores array i (v # vs) = stores (store array i v) (i + 1) vs"

fun overwrites :: "nat \<Rightarrow> 'a list \<Rightarrow> 'a move list" where
  "overwrites i [] = []"
| "overwrites i (v # vs) = Overwrite (int i) v # overwrites (i + 1) vs"

text \<open>
  While the inner loop of insertion sort runs, the engine's array \<open>e\<close> has a hole at
  position \<open>h = j + 1\<close>: below the hole it is the array \<open>a\<close> the iteration started
  with, above the hole and up to \<open>i\<close> it is \<open>a\<close> shifted by one place, and these
  shifted values exceed the key.
\<close>

definition insertionInv :: "'a::linorder list \<Rightarrow> nat \<Rightarrow> 'a \<Rightarrow> nat \<Rightarrow> 'a list \<Rightarrow> bool" where
  "insertionInv a i key h e =
     (h \<le> i \<and> i < length a \<and> length e = length a
      \<and> (\<forall>k < h. e ! k = a ! k)
      \<and> (\<forall>k. h < k \<and> k \<le> i \<longrightarrow> e ! k = a ! (k - 1) \<and> key < a ! (k - 1))
      \<and> (\<forall>k. i < k \<and> k < length a \<longrightarrow> e ! k = a ! k))"

text \<open>
  Node \<open>k\<close> of the heap stored in the first \<open>n\<close> positions of an array is in order
  when neither of its children, as far as they lie inside the heap, exceeds it.
\<close>

definition heapAt :: "'a::linorder list \<Rightarrow> nat \<Rightarrow> nat \<Rightarrow> bool" where
  "heapAt a n k = ((2 * k + 1 < n \<longrightarrow> a ! (2 * k + 1) \<le> a ! k)
                 \<and> (2 * k + 2 < n \<longrightarrow> a ! (2 * k + 2) \<le> a ! k))"

section \<open>Replaying logs\<close>

lemma swap_length [simp]: "length (swap i j xs) = length xs"
  by (simp add: swap_def)

lemma swap_mset: "i < length xs \<Longrightarrow> j < length xs \<Longrightarrow> mset (swap i j xs) = mset xs"
  by (simp add: swap_def mset_swap)

lemma applyMove_length: "applyMove m xs = Some ys \<Longrightarrow> length ys = length xs"
  by (cases m) (auto split: if_splits)

lemma replay_length: "replay ms xs = Some ys \<Longrightarrow> length ys = length xs"
  by (induction ms arbitrary: xs) (auto split: option.splits dest: applyMove_length)

lemma replay_append:
  "replay (ms @ ms') xs = (case replay ms xs of None \<Rightarrow> None | Some ys \<Rightarrow> replay ms' ys)"
  by (induction ms arbitrary: xs) (auto split: option.splits)

lemma replay_snoc:
  "replay ms xs = Some ys \<Longrightarrow> applyMove m ys = Some zs \<Longrightarrow> replay (ms @ [m]) xs = Some zs"
  by (simp add: replay_append)

lemma applyMove_inBounds: "applyMove m xs = Some ys \<Longrightarrow> moveInBounds (length xs) m"
  by (cases m) (auto split: if_splits)

lemma replay_inBounds: "replay ms xs = Some ys \<Longrightarrow> \<forall>m \<in> set ms. moveInBounds (length xs) m"
proof (induction ms arbitrary: xs)
  case Nil
  then show ?case by simp
next
  case (Cons m ms)
  then obtain zs where z: "applyMove m xs = Some zs" "replay ms zs = Some ys"
    by (auto split: option.splits)
  with Cons.IH [of zs] applyMove_length [OF z(1)] applyMove_inBounds [OF z(1)]
  show ?case by simp
qed

lemma replay_swaps_mset:
  "replay ms xs = Some ys \<Longrightarrow> \<forall>m \<in> set ms. isSwap m \<Longrightarrow> mset ys = mset xs"
proof (induction ms arbitrary: xs)
  case Nil
  then show ?case by simp
next
  case (Cons m ms)
  then obtain zs where z: "applyMove m xs = Some zs" "replay ms zs = Some ys"
    by (auto split: option.splits)
  from Cons.prems(2) obtain i j where m: "m = Swap i j" by (cases m) auto
  with z(1) have "mset zs = mset xs"
    by (auto simp: inBounds_def swap_mset split: if_splits)
  with Cons.IH [OF z(2)] Cons.prems(2) show ?case by simp
qed

lemma applyMove_Swap_nat:
  "i < length xs \<Longrightarrow> j < length xs \<Longrightarrow> applyMove (Swap (int i) (int j)) xs = Some (swap i j xs)"
  by (simp add: inBounds_def)

section \<open>Bubble sort: the log and the result\<close>

subsection \<open>Inversions\<close>

lemma inversions_bound2: "2 * inversions xs + length xs \<le> length xs * length xs"
proof (induction xs)
  case Nil
  then show ?case by simp
next
  case (Cons x xs)
  show ?case
    using Cons.IH length_filter_le [of "\<lambda>y. y < x" xs] by (simp del: length_filter_le)
qed

lemma inversions_bound: "inversions xs \<le> length xs * (length xs - 1) div 2"
proof -
  have "2 * inversions xs \<le> length xs * length xs - length xs"
    using inversions_bound2 [of xs] by simp
  also have "\<dots> = length xs * (length xs - 1)"
    by (simp add: diff_mult_distrib2)
  finally show ?thesis by simp
qed

lemma inversions_sorted: "sorted xs \<Longrightarrow> inversions xs = 0"
  by (induction xs) (auto simp: filter_empty_conv not_less)

lemma inversions_adjacent:
  "x > y \<Longrightarrow> inversions (xs @ x # y # ys) = Suc (inversions (xs @ y # x # ys))"
  by (induction xs) (auto simp: not_less)

lemma swap_adjacent:
  assumes "Suc k < length xs"
  shows "xs = take k xs @ xs ! k # xs ! Suc k # drop (Suc (Suc k)) xs"
    and "swap k (Suc k) xs = take k xs @ xs ! Suc k # xs ! k # drop (Suc (Suc k)) xs"
proof -
  show a: "xs = take k xs @ xs ! k # xs ! Suc k # drop (Suc (Suc k)) xs"
    using assms by (simp add: Cons_nth_drop_Suc)
  show "swap k (Suc k) xs = take k xs @ xs ! Suc k # xs ! k # drop (Suc (Suc k)) xs"
  proof -
    have d: "drop (Suc k) xs = xs ! Suc k # drop (Suc (Suc k)) xs"
      using assms by (simp add: Cons_nth_drop_Suc)
    have "xs[k := xs ! Suc k] = take k xs @ xs ! Suc k # drop (Suc k) xs"
      using assms by (simp add: upd_conv_take_nth_drop)
    then have "swap k (Suc k) xs
        = (take k xs @ xs ! Suc k # xs ! Suc k # drop (Suc (Suc k)) xs)[Suc k := xs ! k]"
      by (simp add: swap_def d)
    also have "\<dots> = take k xs @ xs ! Suc k # xs ! k # drop (Suc (Suc k)) xs"
      using assms by (simp add: list_update_append)
    finally show ?thesis .
  qed
qed

lemma inversions_swap:
  assumes "Suc k < length xs" and "xs ! k > xs ! Suc k"
  shows "inversions xs = Suc (inversions (swap k (Suc k) xs))"
  using inversions_adjacent [OF assms(2), of "take k xs" "drop (Suc (Suc k)) xs"]
    swap_adjacent [OF assms(1)] by simp

subsection \<open>The passes\<close>

lemma bubblePass_log:
  "0 < i \<Longrightarrow>
   \<exists>array' new. bubblePass i array moves swapped = (array', moves @ new, swapped \<or> new \<noteq> [])
      \<and> replay new array = Some array' \<and> (\<forall>m \<in> set new. isSwap m)
      \<and> inversions array = length new + inversions array'
      \<and> (new = [] \<longrightarrow> array' = array
            \<and> (\<forall>k. i \<le> k \<and> k < length array \<longrightarrow> array ! (k - 1) \<le> array ! k))"
proof (induction i array moves swapped rule: bubblePass.induct)
  case (1 i array moves swapped)
  note unfold = bubblePass.simps [of i array moves swapped]
  show ?case
  proof (cases "i < length array")
    case False
    with unfold show ?thesis by auto
  next
    case inside: True
    show ?thesis
    proof (cases "array ! (i - 1) > array ! i")
      case True
      let ?array1 = "swap (i - 1) i array"
      let ?m = "Swap (int i - 1) (int i) :: 'a move"
      from "1.IH"(1) [OF inside True] obtain array' new where
        run: "bubblePass (i + 1) ?array1 (moves @ [?m]) True
                = (array', (moves @ [?m]) @ new, True \<or> new \<noteq> [])"
        and rep: "replay new ?array1 = Some array'"
        and sw: "\<forall>m \<in> set new. isSwap m"
        and inv: "inversions ?array1 = length new + inversions array'"
        by auto
      have step: "applyMove ?m array = Some ?array1"
        using inside "1.prems" by (simp add: inBounds_def nat_diff_distrib)
      have "inversions array = Suc (inversions ?array1)"
        using inversions_swap [of "i - 1" array] inside "1.prems" True by simp
      with run rep sw inv step unfold inside True show ?thesis
        by (intro exI [of _ array'] exI [of _ "?m # new"]) simp
    next
      case False
      from "1.IH"(2) [OF inside False] obtain array' new where
        run: "bubblePass (i + 1) array moves swapped = (array', moves @ new, swapped \<or> new \<noteq> [])"
        and rep: "replay new array = Some array'"
        and sw: "\<forall>m \<in> set new. isSwap m"
        and inv: "inversions array = length new + inversions array'"
        and same: "new = [] \<longrightarrow> array' = array
            \<and> (\<forall>k. i + 1 \<le> k \<and> k < length array \<longrightarrow> array ! (k - 1) \<le> array ! k)"
        by auto
      have "\<forall>k. i \<le> k \<and> k < length array \<longrightarrow> array ! (k - 1) \<le> array ! k" if "new = []"
      proof (intro allI impI)
        fix k assume k: "i \<le> k \<and> k < length array"
        show "array ! (k - 1) \<le> array ! k"
        proof (cases "k = i")
          case True
          with False show ?thesis by simp
        next
          case False
          with k same that show ?thesis by simp
        qed
      qed
      with run rep sw inv same unfold inside False show ?thesis
        by (intro exI [of _ array'] exI [of _ new]) auto
    qed
  qed
qed

lemma sorted_adjacent:
  "(\<forall>k. 1 \<le> k \<and> k < length xs \<longrightarrow> xs ! (k - 1) \<le> xs ! k) \<Longrightarrow> sorted xs"
  unfolding sorted_iff_nth_Suc
proof (intro allI impI)
  fix i assume a: "\<forall>k. 1 \<le> k \<and> k < length xs \<longrightarrow> xs ! (k - 1) \<le> xs ! k" and "Suc i < length xs"
  then show "xs ! i \<le> xs ! Suc i" using a [rule_format, of "Suc i"] by simp
qed

lemma bubbleLoop_log:
  "\<exists>array' new. bubbleLoop array moves = Some (array', moves @ new)
      \<and> replay new array = Some array' \<and> (\<forall>m \<in> set new. isSwap m)
      \<and> length new = inversions array \<and> sorted array'"
proof (induction "inversions array" arbitrary: array moves rule: less_induct)
  case less
  from bubblePass_log [of 1 array moves False] obtain array1 new1 where
    run: "bubblePass 1 array moves False = (array1, moves @ new1, new1 \<noteq> [])"
    and rep: "replay new1 array = Some array1"
    and sw: "\<forall>m \<in> set new1. isSwap m"
    and inv: "inversions array = length new1 + inversions array1"
    and same: "new1 = [] \<longrightarrow> array1 = array
            \<and> (\<forall>k. 1 \<le> k \<and> k < length array \<longrightarrow> array ! (k - 1) \<le> array ! k)"
    by auto
  show ?case
  proof (cases "new1 = []")
    case True
    with same have "sorted array" by (simp add: sorted_adjacent)
    with True run same show ?thesis
      by (subst bubbleLoop.simps) (simp add: inversions_sorted)
  next
    case False
    with inv have "inversions array1 < inversions array" by (cases new1) auto
    from less [OF this, of "moves @ new1"] obtain array' new where
      loop: "bubbleLoop array1 (moves @ new1) = Some (array', (moves @ new1) @ new)"
      and rep2: "replay new array1 = Some array'"
      and sw2: "\<forall>m \<in> set new. isSwap m"
      and len: "length new = inversions array1" and sorted: "sorted array'"
      by auto
    have "bubbleLoop array moves = Some (array', moves @ (new1 @ new))"
      using run False loop by (subst bubbleLoop.simps) simp
    with rep rep2 sw sw2 len inv sorted show ?thesis
      by (intro exI [of _ array'] exI [of _ "new1 @ new"]) (auto simp: replay_append)
  qed
qed


section \<open>Selection sort: the log and the result\<close>

lemma nth_swap:
  "i < length xs \<Longrightarrow> j < length xs \<Longrightarrow>
   swap i j xs ! k = (if k = j then xs ! i else if k = i then xs ! j else xs ! k)"
  by (auto simp: swap_def nth_list_update)

lemma selectionMin_spec:
  "m < j \<Longrightarrow> m < length array \<Longrightarrow>
   m \<le> selectionMin j m array \<and> selectionMin j m array < length array
   \<and> array ! selectionMin j m array \<le> array ! m
   \<and> (\<forall>k. j \<le> k \<and> k < length array \<longrightarrow> array ! selectionMin j m array \<le> array ! k)"
proof (induction j m array rule: selectionMin.induct)
  case (1 j minIndex array)
  note unfold = selectionMin.simps [of j minIndex array]
  show ?case
  proof (cases "j < length array")
    case False
    with unfold "1.prems" show ?thesis by auto
  next
    case True
    let ?m = "if array ! j < array ! minIndex then j else minIndex"
    have "?m < j + 1" "?m < length array" using "1.prems" True by auto
    from "1.IH" [OF True this] 
    have IH: "?m \<le> selectionMin (j + 1) ?m array" "selectionMin (j + 1) ?m array < length array"
      "array ! selectionMin (j + 1) ?m array \<le> array ! ?m"
      "\<forall>k. j + 1 \<le> k \<and> k < length array \<longrightarrow> array ! selectionMin (j + 1) ?m array \<le> array ! k"
      by auto
    have eq: "selectionMin j minIndex array = selectionMin (j + 1) ?m array"
      using unfold True by simp
    have "\<forall>k. j \<le> k \<and> k < length array \<longrightarrow> array ! selectionMin (j + 1) ?m array \<le> array ! k"
    proof (intro allI impI)
      fix k assume k: "j \<le> k \<and> k < length array"
      show "array ! selectionMin (j + 1) ?m array \<le> array ! k"
      proof (cases "k = j")
        case True
        with IH(3) show ?thesis by (auto split: if_splits)
      next
        case False
        with k IH(4) show ?thesis by simp
      qed
    qed
    moreover have "array ! selectionMin (j + 1) ?m array \<le> array ! minIndex"
      using IH(3) by (auto split: if_splits)
    moreover have "minIndex \<le> selectionMin (j + 1) ?m array"
      using IH(1) "1.prems" by (auto split: if_splits)
    ultimately show ?thesis using eq IH(2) by simp
  qed
qed

lemma selectionLoop_log:
  "(\<forall>p q. p < i \<and> p \<le> q \<and> q < length array \<longrightarrow> array ! p \<le> array ! q) \<Longrightarrow>
   \<exists>array' new. selectionLoop i array moves = (array', moves @ new)
      \<and> replay new array = Some array' \<and> (\<forall>m \<in> set new. isSwap m)
      \<and> length new \<le> length array - 1 - i \<and> sorted array'"
proof (induction i array moves rule: selectionLoop.induct)
  case (1 i array moves)
  note unfold = selectionLoop.simps [of i array moves]
  show ?case
  proof (cases "int i < int (length array) - 1")
    case False
    have "sorted array"
      unfolding sorted_iff_nth_mono
    proof (intro allI impI)
      fix p q assume "p \<le> q" "q < length array"
      with False "1.prems" show "array ! p \<le> array ! q"
        by (cases "p < i") (auto simp: le_less)
    qed
    with False unfold show ?thesis by simp
  next
    case True
    then have i: "i < length array" "i + 1 < length array" by auto
    let ?r = "selectionMin (i + 1) i array"
    from selectionMin_spec [of i "i + 1" array] i
    have r: "i \<le> ?r" "?r < length array" "array ! ?r \<le> array ! i"
      "\<forall>k. i + 1 \<le> k \<and> k < length array \<longrightarrow> array ! ?r \<le> array ! k"
      by auto
    have rmin: "array ! ?r \<le> array ! k" if "i \<le> k" "k < length array" for k
      using r(3,4) that by (cases "k = i") auto
    show ?thesis
    proof (cases "?r \<noteq> i")
      case False
      have inv: "\<forall>p q. p < i + 1 \<and> p \<le> q \<and> q < length array \<longrightarrow> array ! p \<le> array ! q"
      proof (intro allI impI)
        fix p q assume a: "p < i + 1 \<and> p \<le> q \<and> q < length array"
        show "array ! p \<le> array ! q"
        proof (cases "p < i")
          case True
          with a "1.prems" show ?thesis by simp
        next
          case notless: False
          with a have "p = i" by simp
          with a rmin [of q] False show ?thesis by simp
        qed
      qed
      from "1.IH"(2) [OF True refl _ inv] False obtain array' new where
        "selectionLoop (i + 1) array moves = (array', moves @ new)"
        "replay new array = Some array'" "\<forall>m \<in> set new. isSwap m"
        "length new \<le> length array - 1 - (i + 1)" "sorted array'"
        by auto
      with unfold True False show ?thesis
        by (intro exI [of _ array'] exI [of _ new]) (simp add: Let_def)
    next
      case neq: True
      let ?array1 = "swap i ?r array"
      let ?m = "Swap (int i) (int ?r) :: 'a move"
      have inv: "\<forall>p q. p < i + 1 \<and> p \<le> q \<and> q < length ?array1 \<longrightarrow> ?array1 ! p \<le> ?array1 ! q"
      proof (intro allI impI)
        fix p q assume a: "p < i + 1 \<and> p \<le> q \<and> q < length ?array1"
        show "?array1 ! p \<le> ?array1 ! q"
        proof (cases "p < i")
          case True
          then have "?array1 ! p = array ! p" using i r by (simp add: nth_swap)
          moreover have "array ! p \<le> array ! q" "array ! p \<le> array ! i" "array ! p \<le> array ! ?r"
            using "1.prems" True a i r by auto
          ultimately show ?thesis using i r by (simp add: nth_swap)
        next
          case notless: False
          with a have "p = i" by simp
          then have "?array1 ! p = array ! ?r" using i r by (simp add: nth_swap)
          moreover have "array ! ?r \<le> array ! q" "array ! ?r \<le> array ! i"
            using rmin [of q] rmin [of i] a \<open>p = i\<close> i by auto
          ultimately show ?thesis using i r by (simp add: nth_swap)
        qed
      qed
      from "1.IH"(1) [OF True refl neq inv] obtain array' new where
        run: "selectionLoop (i + 1) ?array1 (moves @ [?m]) = (array', (moves @ [?m]) @ new)"
        and rep: "replay new ?array1 = Some array'" and sw: "\<forall>m \<in> set new. isSwap m"
        and len: "length new \<le> length ?array1 - 1 - (i + 1)" and sorted: "sorted array'"
        by auto
      have step: "applyMove ?m array = Some ?array1"
        using i r by (simp add: inBounds_def)
      from run rep sw len sorted step unfold True neq i show ?thesis
        by (intro exI [of _ array'] exI [of _ "?m # new"]) (simp add: Let_def)
    qed
  qed
qed

section \<open>Insertion sort: the log and the result\<close>

lemma insertionWhile_log:
  "insertionInv a i key h e \<Longrightarrow>
   \<exists>h' e' new. insertionWhile key (int h - 1) e moves = (int h' - 1, e', moves @ new)
      \<and> h' \<le> h \<and> insertionInv a i key h' e' \<and> (h' = 0 \<or> a ! (h' - 1) \<le> key)
      \<and> replay new (e[h := key]) = Some (e'[h' := key])
      \<and> (\<forall>m \<in> set new. isSwap m) \<and> length new = h - h'"
proof (induction h arbitrary: e moves)
  case 0
  have "insertionWhile key (int 0 - 1) e moves = (int 0 - 1, e, moves)"
    by (subst insertionWhile.simps) simp
  with 0 show ?case
    by (intro exI [of _ 0] exI [of _ e] exI [of _ "[]"]) simp
next
  case (Suc h)
  note inv = Suc.prems [unfolded insertionInv_def]
  have eh: "e ! h = a ! h" using inv by simp
  show ?case
  proof (cases "a ! h > key")
    case False
    have "insertionWhile key (int (Suc h) - 1) e moves = (int (Suc h) - 1, e, moves)"
      using False eh by (subst insertionWhile.simps) simp
    with Suc.prems False show ?thesis
      by (intro exI [of _ "Suc h"] exI [of _ e] exI [of _ "[]"]) simp
  next
    case True
    let ?e1 = "e[Suc h := e ! h]"
    let ?m = "Swap (int h + 1) (int h) :: 'a move"
    have unfold: "insertionWhile key (int (Suc h) - 1) e moves
        = insertionWhile key (int h - 1) ?e1 (moves @ [?m])"
      using True eh by (subst insertionWhile.simps) (simp add: nat_add_distrib)
    have inv1: "insertionInv a i key h ?e1"
      unfolding insertionInv_def using inv True eh
      by (auto simp: nth_list_update)
    from Suc.IH [OF inv1, of "moves @ [?m]"] obtain h' e' new where
      run: "insertionWhile key (int h - 1) ?e1 (moves @ [?m]) = (int h' - 1, e', (moves @ [?m]) @ new)"
      and h': "h' \<le> h" and inv': "insertionInv a i key h' e'"
      and stop: "h' = 0 \<or> a ! (h' - 1) \<le> key"
      and rep: "replay new (?e1[h := key]) = Some (e'[h' := key])"
      and sw: "\<forall>m \<in> set new. isSwap m" and len: "length new = h - h'"
      by blast
    have len_e: "Suc h < length e" using inv by simp
    have "swap (Suc h) h (e[Suc h := key]) = ?e1[h := key]"
      using len_e by (intro nth_equalityI) (auto simp: swap_def nth_list_update)
    moreover have "nat (int h + 1) = Suc h" by simp
    ultimately have step: "applyMove ?m (e[Suc h := key]) = Some (?e1[h := key])"
      using len_e by (simp add: inBounds_def del: of_nat_Suc)
    from run unfold h' inv' stop rep sw len step show ?thesis
      by (intro exI [of _ h'] exI [of _ e'] exI [of _ "?m # new"]) simp
  qed
qed

lemma countSwaps_append [simp]: "countSwaps (xs @ ys) = countSwaps xs + countSwaps ys"
  by (simp add: countSwaps_def)

lemma countOverwrites_append [simp]:
  "countOverwrites (xs @ ys) = countOverwrites xs + countOverwrites ys"
  by (simp add: countOverwrites_def)

lemma count_all_swaps:
  "\<forall>m \<in> set ms. isSwap m \<Longrightarrow> countSwaps ms = length ms \<and> countOverwrites ms = 0"
  by (induction ms) (auto simp: countSwaps_def countOverwrites_def)

lemma insertion_prefix_sorted:
  assumes inv: "insertionInv a i key h e" and key: "key = a ! i"
    and stop: "h = 0 \<or> a ! (h - 1) \<le> key"
    and sorted: "\<forall>p q. p \<le> q \<and> q < i \<longrightarrow> a ! p \<le> a ! q"
    and pq: "p \<le> q" "q < i + 1"
  shows "e[h := key] ! p \<le> e[h := key] ! q"
proof -
  note I = inv [unfolded insertionInv_def]
  have below: "a ! k \<le> key" if "k < h" for k
  proof -
    from that stop have "a ! (h - 1) \<le> key" by auto
    moreover have "k \<le> h - 1 \<and> h - 1 < i" using that I by auto
    from sorted [rule_format, OF this] have "a ! k \<le> a ! (h - 1)" .
    ultimately show ?thesis by simp
  qed
  have len: "h < length e" "p < length e" "q < length e" using I pq by auto
  consider "q < h" | "p < h" "q = h" | "p < h" "h < q" | "p = h" | "h < p"
    using pq by linarith
  then show ?thesis
  proof cases
    case 1
    with pq I sorted show ?thesis by (auto simp: nth_list_update)
  next
    case 2
    with below [of p] I len show ?thesis by (simp add: nth_list_update)
  next
    case 3
    have "p \<le> q - 1 \<and> q - 1 < i" using 3 pq by auto
    from sorted [rule_format, OF this] have "a ! p \<le> a ! (q - 1)" .
    with 3 I pq len show ?thesis by (simp add: nth_list_update)
  next
    case 4
    show ?thesis
    proof (cases "q = h")
      case True
      with 4 show ?thesis by simp
    next
      case False
      with 4 pq I have "e ! q = a ! (q - 1) \<and> key < a ! (q - 1)" by auto
      with False 4 len show ?thesis by (auto simp: nth_list_update)
    qed
  next
    case 5
    have "p - 1 \<le> q - 1 \<and> q - 1 < i" using 5 pq by auto
    from sorted [rule_format, OF this] have "a ! (p - 1) \<le> a ! (q - 1)" .
    with 5 I pq len show ?thesis by (simp add: nth_list_update)
  qed
qed

lemma insertionFor_log:
  "0 < i \<Longrightarrow> (\<forall>p q. p \<le> q \<and> q < i \<and> q < length array \<longrightarrow> array ! p \<le> array ! q) \<Longrightarrow>
   \<exists>array' new. insertionFor i array moves = (array', moves @ new)
      \<and> replay new array = Some array' \<and> sorted array' \<and> mset array' = mset array
      \<and> countOverwrites new \<le> length array - i
      \<and> 2 * countSwaps new \<le> length array * (length array - 1) - i * (i - 1)"
proof (induction i array moves rule: insertionFor.induct)
  case (1 i array moves)
  note unfold = insertionFor.simps [of i array moves]
  show ?case
  proof (cases "i < length array")
    case False
    have "sorted array"
      unfolding sorted_iff_nth_mono using "1.prems"(2) False by auto
    with False unfold show ?thesis
      by (intro exI [of _ array] exI [of _ "[]"]) (simp add: countSwaps_def countOverwrites_def)
  next
    case True
    let ?key = "array ! i"
    have inv0: "insertionInv array i ?key i array"
      using True by (auto simp: insertionInv_def)
    from insertionWhile_log [OF inv0, of moves] obtain h e new where
      run: "insertionWhile ?key (int i - 1) array moves = (int h - 1, e, moves @ new)"
      and h: "h \<le> i" and inv: "insertionInv array i ?key h e"
      and stop: "h = 0 \<or> array ! (h - 1) \<le> ?key"
      and rep: "replay new (array[i := ?key]) = Some (e[h := ?key])"
      and sw: "\<forall>m \<in> set new. isSwap m" and len: "length new = i - h"
      by blast
    let ?array2 = "e[h := ?key]"
    let ?ow = "Overwrite (int h - 1 + 1) ?key"
    have len2: "length ?array2 = length array" using inv by (simp add: insertionInv_def)
    have sorted2: "\<forall>p q. p \<le> q \<and> q < i + 1 \<and> q < length ?array2 \<longrightarrow> ?array2 ! p \<le> ?array2 ! q"
      using insertion_prefix_sorted [OF inv refl stop] "1.prems"(2) True by auto
    have mset2: "mset ?array2 = mset array"
      using replay_swaps_mset [OF rep sw] by simp
    have nat_h: "nat (int h - 1 + 1) = h" by simp
    from "1.IH" [OF True refl run [symmetric] refl, unfolded nat_h, OF _ sorted2]
    obtain array' rest where
      loop: "insertionFor (i + 1) ?array2 ((moves @ new) @ [?ow]) = (array', (moves @ new @ [?ow]) @ rest)"
      and rep2: "replay rest ?array2 = Some array'" and sorted: "sorted array'"
      and mset': "mset array' = mset ?array2"
      and ow: "countOverwrites rest \<le> length ?array2 - (i + 1)"
      and cs: "2 * countSwaps rest \<le> length ?array2 * (length ?array2 - 1) - (i + 1) * (i + 1 - 1)"
      by auto
    have eq: "insertionFor i array moves = (array', moves @ (new @ [?ow] @ rest))"
      using unfold True run loop by (simp add: Let_def)
    have "applyMove ?ow ?array2 = Some ?array2"
      using h True len2 by (simp add: inBounds_def)
    with rep rep2 have rep': "replay (new @ [?ow] @ rest) array = Some array'"
      by (simp add: replay_append)
    have cnt: "countSwaps new = i - h" "countOverwrites new = 0"
      using count_all_swaps [OF sw] len by auto
    have ow': "countOverwrites (new @ [?ow] @ rest) \<le> length array - i"
      using ow cnt True len2 by (simp add: countOverwrites_def)
    have a1: "(i + 1) * i = i * (i - 1) + 2 * i" using "1.prems"(1) by (cases i) auto
    have a2: "(i + 1) * i \<le> length array * (length array - 1)"
      using True by (intro mult_le_mono) auto
    have "2 * countSwaps (new @ [?ow] @ rest) = 2 * (i - h) + 2 * countSwaps rest"
      using cnt by (simp add: countSwaps_def)
    also have "\<dots> \<le> 2 * i + (length array * (length array - 1) - (i + 1) * i)"
      using cs len2 by simp
    also have "\<dots> = length array * (length array - 1) - i * (i - 1)"
      using a1 a2 by simp
    finally have cs': "2 * countSwaps (new @ [?ow] @ rest)
        \<le> length array * (length array - 1) - i * (i - 1)" .
    from eq rep' sorted mset' mset2 ow' cs' show ?thesis
      by (intro exI [of _ array'] exI [of _ "new @ [?ow] @ rest"]) simp
  qed
qed

section \<open>Merge sort: the log and the result\<close>

lemma stores_append: "stores array i (vs @ ws) = stores (stores array i vs) (i + length vs) ws"
  by (induction vs arbitrary: array i) auto

lemma overwrites_append: "overwrites i (vs @ ws) = overwrites i vs @ overwrites (i + length vs) ws"
  by (induction vs arbitrary: i) auto

lemma stores_inside:
  "i + length vs \<le> length array \<Longrightarrow>
   stores array i vs = take i array @ vs @ drop (i + length vs) array"
proof (induction vs arbitrary: array i)
  case Nil
  then show ?case by simp
next
  case (Cons v vs)
  then have i: "i < length array" by simp
  have "stores (array[i := v]) (i + 1) vs
      = take (i + 1) (array[i := v]) @ vs @ drop (i + 1 + length vs) (array[i := v])"
    using Cons.prems by (intro Cons.IH) simp
  also have "take (i + 1) (array[i := v]) = take i array @ [v]"
    using i by (simp add: take_Suc_conv_app_nth)
  finally show ?case using i by (simp add: store_def)
qed

lemma replay_overwrites:
  "i + length vs \<le> length array \<Longrightarrow> replay (overwrites i vs) array = Some (stores array i vs)"
proof (induction vs arbitrary: array i)
  case Nil
  then show ?case by simp
next
  case (Cons v vs)
  then show ?case by (simp add: inBounds_def store_def)
qed

lemma mergeRest_log:
  "hi \<le> length half \<Longrightarrow>
   mergeRest half hi oi array moves
     = (oi + (length half - hi), stores array oi (drop hi half), moves @ overwrites oi (drop hi half))"
proof (induction half hi oi array moves rule: mergeRest.induct)
  case (1 half hi oi array moves)
  note unfold = mergeRest.simps [of half hi oi array moves]
  show ?case
  proof (cases "hi < length half")
    case False
    with "1.prems" unfold show ?thesis by simp
  next
    case True
    then have "drop hi half = half ! hi # drop (hi + 1) half"
      by (simp add: Cons_nth_drop_Suc)
    with "1.IH" [OF True] True unfold show ?thesis by simp
  qed
qed

lemma mergeBoth_log:
  "\<exists>vs li' ri'. mergeBoth left right li ri oi array moves
       = (li', ri', oi + length vs, stores array oi vs, moves @ overwrites oi vs)
     \<and> merged left right li ri = vs @ drop li' left @ drop ri' right
     \<and> (li \<le> length left \<longrightarrow> li' \<le> length left) \<and> (ri \<le> length right \<longrightarrow> ri' \<le> length right)"
proof (induction left right li ri oi array moves rule: mergeBoth.induct)
  case (1 left right li ri oi array moves)
  note unfold = mergeBoth.simps [of left right li ri oi array moves]
    and unfold' = merged.simps [of left right li ri]
  show ?case
  proof (cases "li < length left \<and> ri < length right")
    case False
    with unfold unfold' show ?thesis
      by (intro exI [of _ "[]"] exI [of _ li] exI [of _ ri]) simp
  next
    case True
    show ?thesis
    proof (cases "left ! li < right ! ri")
      case less: True
      from "1.IH"(1) [OF True less] obtain vs li' ri' where
        "mergeBoth left right (li + 1) ri (oi + 1) (store array oi (left ! li))
            (moves @ [Overwrite (int oi) (left ! li)])
          = (li', ri', oi + 1 + length vs, stores (store array oi (left ! li)) (oi + 1) vs,
             (moves @ [Overwrite (int oi) (left ! li)]) @ overwrites (oi + 1) vs)"
        "merged left right (li + 1) ri = vs @ drop li' left @ drop ri' right"
        "li + 1 \<le> length left \<longrightarrow> li' \<le> length left" "ri \<le> length right \<longrightarrow> ri' \<le> length right"
        by blast
      with True less unfold unfold' show ?thesis
        by (intro exI [of _ "left ! li # vs"] exI [of _ li'] exI [of _ ri']) simp
    next
      case notless: False
      from "1.IH"(2) [OF True notless] obtain vs li' ri' where
        "mergeBoth left right li (ri + 1) (oi + 1) (store array oi (right ! ri))
            (moves @ [Overwrite (int oi) (right ! ri)])
          = (li', ri', oi + 1 + length vs, stores (store array oi (right ! ri)) (oi + 1) vs,
             (moves @ [Overwrite (int oi) (right ! ri)]) @ overwrites (oi + 1) vs)"
        "merged left right li (ri + 1) = vs @ drop li' left @ drop ri' right"
        "li \<le> length left \<longrightarrow> li' \<le> length left" "ri + 1 \<le> length right \<longrightarrow> ri' \<le> length right"
        by blast
      with True notless unfold unfold' show ?thesis
        by (intro exI [of _ "right ! ri # vs"] exI [of _ li'] exI [of _ ri']) simp
    qed
  qed
qed

lemma merge_log:
  "merge left right array moves
     = (stores array 0 (merged left right 0 0), moves @ overwrites 0 (merged left right 0 0))"
proof -
  from mergeBoth_log [of left right 0 0 0 array moves] obtain vs li ri where
    both: "mergeBoth left right 0 0 0 array moves
       = (li, ri, length vs, stores array 0 vs, moves @ overwrites 0 vs)"
    and m: "merged left right 0 0 = vs @ drop li left @ drop ri right"
    and le: "li \<le> length left" "ri \<le> length right"
    by auto
  show ?thesis
    unfolding merge_def both m
    by (simp add: mergeRest_log le stores_append overwrites_append add.assoc)
qed

lemma length_merged:
  "li \<le> length left \<Longrightarrow> ri \<le> length right \<Longrightarrow>
   length (merged left right li ri) = (length left - li) + (length right - ri)"
proof (induction left right li ri rule: merged.induct)
  case (1 left right li ri)
  note unfold = merged.simps [of left right li ri]
  show ?case
  proof (cases "li < length left \<and> ri < length right")
    case False
    with unfold "1.prems" show ?thesis by simp
  next
    case True
    with unfold "1.IH" "1.prems" show ?thesis
      by (cases "left ! li < right ! ri") auto
  qed
qed

lemma mset_merged:
  "mset (merged left right li ri) = mset (drop li left) + mset (drop ri right)"
proof (induction left right li ri rule: merged.induct)
  case (1 left right li ri)
  note unfold = merged.simps [of left right li ri]
  show ?case
  proof (cases "li < length left \<and> ri < length right")
    case False
    with unfold show ?thesis by simp
  next
    case True
    then have d: "drop li left = left ! li # drop (li + 1) left"
      "drop ri right = right ! ri # drop (ri + 1) right"
      by (simp_all add: Cons_nth_drop_Suc)
    from True unfold "1.IH" show ?thesis
      by (cases "left ! li < right ! ri") (auto simp: d)
  qed
qed

lemma sorted_merged:
  fixes left :: "'a::linorder list"
  shows "sorted (drop li left) \<Longrightarrow> sorted (drop ri right) \<Longrightarrow> sorted (merged left right li ri)"
proof (induction left right li ri rule: merged.induct)
  case (1 left right li ri)
  note unfold = merged.simps [of left right li ri]
  show ?case
  proof (cases "li < length left \<and> ri < length right")
    case False
    with unfold "1.prems" show ?thesis by auto
  next
    case True
    then have d: "drop li left = left ! li # drop (li + 1) left"
      "drop ri right = right ! ri # drop (ri + 1) right"
      by (simp_all add: Cons_nth_drop_Suc)
    show ?thesis
    proof (cases "left ! li < right ! ri")
      case less: True
      have "sorted (merged left right (li + 1) ri)"
        using "1.IH"(1) [OF True less] "1.prems" d by simp
      moreover have "\<forall>x \<in> set (merged left right (li + 1) ri). left ! li \<le> x"
        using "1.prems" d less
        by (auto simp: mset_merged [THEN arg_cong, of set_mset, simplified])
      ultimately show ?thesis using unfold True less by simp
    next
      case notless: False
      have "sorted (merged left right li (ri + 1))"
        using "1.IH"(2) [OF True notless] "1.prems" d by simp
      moreover have "\<forall>x \<in> set (merged left right li (ri + 1)). right ! ri \<le> x"
        using "1.prems" d notless
        by (auto simp: mset_merged [THEN arg_cong, of set_mset, simplified])
      ultimately show ?thesis using unfold True notless by simp
    qed
  qed
qed

lemma mergeSort_log:
  fixes array :: "'a::linorder list"
  shows "\<exists>result new. mergeSort array moves = (result, moves @ new)
     \<and> length result = length array \<and> mset result = mset array \<and> sorted result
     \<and> (\<forall>xs. length array \<le> length xs \<longrightarrow> (\<exists>ys. replay new xs = Some ys))
     \<and> replay new array = Some result
     \<and> (\<forall>m \<in> set new. \<not> isSwap m)"
proof (induction "length array" arbitrary: array moves rule: less_induct)
  case less
  note unfold = mergeSort.simps [of array moves]
  show ?case
  proof (cases "length array \<le> 1")
    case True
    then have "sorted array" by (cases array) auto
    with True unfold show ?thesis
      by (intro exI [of _ array] exI [of _ "[]"]) simp
  next
    case False
    let ?mid = "length array div 2"
    have small: "length (take ?mid array) < length array" "length (drop ?mid array) < length array"
      using False by auto
    from less [OF small(1), of moves] obtain left new1 where
      l: "mergeSort (take ?mid array) moves = (left, moves @ new1)"
      and llen: "length left = length (take ?mid array)"
      and lmset: "mset left = mset (take ?mid array)" and lsorted: "sorted left"
      and lrep: "\<forall>xs. length (take ?mid array) \<le> length xs \<longrightarrow> (\<exists>ys. replay new1 xs = Some ys)"
      and low: "\<forall>m \<in> set new1. \<not> isSwap m"
      by blast
    from less [OF small(2), of "moves @ new1"] obtain right new2 where
      r: "mergeSort (drop ?mid array) (moves @ new1) = (right, (moves @ new1) @ new2)"
      and rlen: "length right = length (drop ?mid array)"
      and rmset: "mset right = mset (drop ?mid array)" and rsorted: "sorted right"
      and rrep: "\<forall>xs. length (drop ?mid array) \<le> length xs \<longrightarrow> (\<exists>ys. replay new2 xs = Some ys)"
      and row: "\<forall>m \<in> set new2. \<not> isSwap m"
      by blast
    let ?M = "merged left right 0 0"
    have run: "mergeSort array moves = (stores array 0 ?M, moves @ (new1 @ new2 @ overwrites 0 ?M))"
      using unfold False l r by (simp add: Let_def merge_log)
    have lenM: "length ?M = length array"
      using llen rlen by (simp add: length_merged)
    then have st: "stores xs 0 ?M = ?M" if "length xs = length array" for xs
      using that by (simp add: stores_inside)
    have "mset (take ?mid array) + mset (drop ?mid array) = mset (take ?mid array @ drop ?mid array)"
      by (simp only: mset_append)
    then have msetM: "mset ?M = mset array"
      using lmset rmset by (simp add: mset_merged)
    have sortedM: "sorted ?M"
      using lsorted rsorted by (simp add: sorted_merged)
    have rep: "\<exists>ys. replay (new1 @ new2 @ overwrites 0 ?M) xs = Some ys
        \<and> (length xs = length array \<longrightarrow> ys = ?M)"
      if big: "length array \<le> length xs" for xs
    proof -
      have "length (take ?mid array) \<le> length xs" using big by simp
      from lrep [rule_format, OF this] obtain ys1 where y1: "replay new1 xs = Some ys1" ..
      then have len1: "length ys1 = length xs" by (rule replay_length)
      have "length (drop ?mid array) \<le> length ys1" using big len1 by simp
      from rrep [rule_format, OF this] obtain ys2 where y2: "replay new2 ys1 = Some ys2" ..
      then have len2: "length ys2 = length ys1" by (rule replay_length)
      have "replay (overwrites 0 ?M) ys2 = Some (stores ys2 0 ?M)"
        using big len1 len2 lenM by (intro replay_overwrites) simp
      with y1 y2 st [of ys2] len1 len2 show ?thesis by (simp add: replay_append)
    qed
    have ow: "\<forall>m \<in> set (overwrites i vs). \<not> isSwap m" for i and vs :: "'a list"
      by (induction vs arbitrary: i) auto
    from run st [of array] lenM msetM sortedM rep low row ow show ?thesis
      by (intro exI [of _ ?M] exI [of _ "new1 @ new2 @ overwrites 0 ?M"]) (auto dest: rep)
  qed
qed

section \<open>Arithmetic of the bounds\<close>

lemma half_bound: "n - 1 \<le> n * (n - 1) div 2" for n :: nat
proof (cases "n \<le> 1")
  case True
  then show ?thesis by simp
next
  case False
  then have "2 * (n - 1) \<le> n * (n - 1)" by (intro mult_le_mono) auto
  then have "2 * (n - 1) div 2 \<le> n * (n - 1) div 2" by (rule div_le_mono)
  then show ?thesis by simp
qed

section \<open>Quick sort: the log and the result\<close>

lemma partitionLoop_log:
  assumes "l \<le> s" "s \<le> j" "j \<le> h" "h < length a"
    and "\<forall>k. l \<le> k \<and> k < s \<longrightarrow> a ! k < pivot"
    and "\<forall>k. s \<le> k \<and> k < j \<longrightarrow> \<not> a ! k < pivot"
  shows "\<exists>s' a' new. partitionLoop pivot (int h) (int s - 1) (int j) a moves
            = (int s' - 1, a', moves @ new)
      \<and> s \<le> s' \<and> s' \<le> h \<and> replay new a = Some a' \<and> (\<forall>m \<in> set new. isSwap m)
      \<and> (\<forall>k. k < l \<or> h \<le> k \<longrightarrow> a' ! k = a ! k)
      \<and> (\<forall>k. l \<le> k \<and> k < s' \<longrightarrow> a' ! k < pivot)
      \<and> (\<forall>k. s' \<le> k \<and> k < h \<longrightarrow> \<not> a' ! k < pivot)"
  using assms
proof (induction "h - j" arbitrary: s j a moves rule: less_induct)
  case less
  note unfold = partitionLoop.simps [of pivot "int h" "int s - 1" "int j" a moves]
  show ?case
  proof (cases "j < h")
    case False
    with less.prems have "j = h" by simp
    with unfold less.prems show ?thesis
      by (intro exI [of _ s] exI [of _ a] exI [of _ "[]"]) simp
  next
    case True
    show ?thesis
    proof (cases "a ! j < pivot")
      case lt: True
      let ?a1 = "swap s j a"
      let ?m = "Swap (int s) (int j) :: 'a move"
      have sj: "s < length a" "j < length a" using less.prems True by auto
      have unfold1: "partitionLoop pivot (int h) (int s - 1) (int j) a moves
          = partitionLoop pivot (int h) (int (s + 1) - 1) (int (j + 1)) ?a1 (moves @ [?m])"
        using unfold True lt by (simp add: add.commute)
      have p1: "\<forall>k. l \<le> k \<and> k < s + 1 \<longrightarrow> ?a1 ! k < pivot"
        using less.prems lt sj by (auto simp: nth_swap)
      have p2: "\<forall>k. s + 1 \<le> k \<and> k < j + 1 \<longrightarrow> \<not> ?a1 ! k < pivot"
        using less.prems lt sj by (auto simp: nth_swap)
      have "h - (j + 1) < h - j" using True by simp
      from less.hyps [OF this, of "s + 1" ?a1 "moves @ [?m]"] p1 p2 less.prems True
      obtain s' a' new where
        run: "partitionLoop pivot (int h) (int (s + 1) - 1) (int (j + 1)) ?a1 (moves @ [?m])
            = (int s' - 1, a', (moves @ [?m]) @ new)"
        and s': "s + 1 \<le> s'" "s' \<le> h" and rep: "replay new ?a1 = Some a'"
        and sw: "\<forall>m \<in> set new. isSwap m"
        and frame: "\<forall>k. k < l \<or> h \<le> k \<longrightarrow> a' ! k = ?a1 ! k"
        and q1: "\<forall>k. l \<le> k \<and> k < s' \<longrightarrow> a' ! k < pivot"
        and q2: "\<forall>k. s' \<le> k \<and> k < h \<longrightarrow> \<not> a' ! k < pivot"
        by auto
      have step: "applyMove ?m a = Some ?a1" using sj by (simp add: inBounds_def)
      have frame': "\<forall>k. k < l \<or> h \<le> k \<longrightarrow> a' ! k = a ! k"
        using frame less.prems True sj by (auto simp: nth_swap)
      from run unfold1 s' rep sw step frame' q1 q2 show ?thesis
        by (intro exI [of _ s'] exI [of _ a'] exI [of _ "?m # new"]) simp
    next
      case nlt: False
      have unfold1: "partitionLoop pivot (int h) (int s - 1) (int j) a moves
          = partitionLoop pivot (int h) (int s - 1) (int (j + 1)) a moves"
        using unfold True nlt by (simp add: add.commute)
      have p2: "\<forall>k. s \<le> k \<and> k < j + 1 \<longrightarrow> \<not> a ! k < pivot"
      proof (intro allI impI)
        fix k assume "s \<le> k \<and> k < j + 1"
        with less.prems(6) nlt show "\<not> a ! k < pivot" by (cases "k = j") auto
      qed
      have "h - (j + 1) < h - j" using True by simp
      from less.hyps [OF this, of s a moves] p2 less.prems True
      obtain s' a' new where
        "partitionLoop pivot (int h) (int s - 1) (int (j + 1)) a moves
            = (int s' - 1, a', moves @ new)"
        "s \<le> s'" "s' \<le> h" "replay new a = Some a'" "\<forall>m \<in> set new. isSwap m"
        "\<forall>k. k < l \<or> h \<le> k \<longrightarrow> a' ! k = a ! k"
        "\<forall>k. l \<le> k \<and> k < s' \<longrightarrow> a' ! k < pivot"
        "\<forall>k. s' \<le> k \<and> k < h \<longrightarrow> \<not> a' ! k < pivot"
        by auto
      with unfold1 show ?thesis
        by (intro exI [of _ s'] exI [of _ a'] exI [of _ new]) simp
    qed
  qed
qed

lemma partition_log:
  assumes "l < h" "h < length a"
  shows "\<exists>p a' new. partition_lomuto a (int l) (int h) moves = (int p, a', moves @ new)
      \<and> l \<le> p \<and> p \<le> h \<and> replay new a = Some a' \<and> (\<forall>m \<in> set new. isSwap m)
      \<and> (\<forall>k. k < l \<or> h < k \<longrightarrow> a' ! k = a ! k)
      \<and> (\<forall>k. l \<le> k \<and> k < p \<longrightarrow> a' ! k < a' ! p)
      \<and> (\<forall>k. p < k \<and> k \<le> h \<longrightarrow> a' ! p \<le> a' ! k)"
proof -
  let ?pivot = "a ! h"
  have e1: "\<forall>k. l \<le> k \<and> k < l \<longrightarrow> a ! k < ?pivot"
    and e2: "\<forall>k. l \<le> k \<and> k < l \<longrightarrow> \<not> a ! k < ?pivot" by auto
  from partitionLoop_log [OF le_refl le_refl less_imp_le [OF assms(1)] assms(2) e1 e2, of moves]
  obtain p a1 new where
    run: "partitionLoop ?pivot (int h) (int l - 1) (int l) a moves = (int p - 1, a1, moves @ new)"
    and p: "l \<le> p" "p \<le> h" and rep: "replay new a = Some a1"
    and sw: "\<forall>m \<in> set new. isSwap m"
    and frame: "\<forall>k. k < l \<or> h \<le> k \<longrightarrow> a1 ! k = a ! k"
    and q1: "\<forall>k. l \<le> k \<and> k < p \<longrightarrow> a1 ! k < ?pivot"
    and q2: "\<forall>k. p \<le> k \<and> k < h \<longrightarrow> \<not> a1 ! k < ?pivot"
    by auto
  let ?a2 = "swap p h a1"
  let ?m = "Swap (int p) (int h) :: 'a move"
  have len: "length a1 = length a" using rep by (rule replay_length)
  then have ph: "p < length a1" "h < length a1" using p assms by auto
  have step: "applyMove ?m a1 = Some ?a2" using ph by (simp add: inBounds_def)
  have eq: "partition_lomuto a (int l) (int h) moves = (int p, ?a2, moves @ (new @ [?m]))"
    using run by (simp add: partition_lomuto_def)
  have pivot: "a1 ! h = ?pivot" using frame by simp
  have "\<forall>k. k < l \<or> h < k \<longrightarrow> ?a2 ! k = a ! k"
    using frame p ph by (auto simp: nth_swap)
  moreover have "\<forall>k. l \<le> k \<and> k < p \<longrightarrow> ?a2 ! k < ?a2 ! p"
    using q1 p ph pivot by (auto simp: nth_swap)
  moreover have "\<forall>k. p < k \<and> k \<le> h \<longrightarrow> ?a2 ! p \<le> ?a2 ! k"
  proof (intro allI impI)
    fix k assume k: "p < k \<and> k \<le> h"
    show "?a2 ! p \<le> ?a2 ! k"
    proof (cases "k = h")
      case True
      with k q2 [rule_format, of p] ph pivot show ?thesis by (simp add: nth_swap)
    next
      case False
      with k q2 [rule_format, of k] ph pivot show ?thesis by (simp add: nth_swap)
    qed
  qed
  ultimately show ?thesis
    using eq p rep sw step
    by (intro exI [of _ p] exI [of _ ?a2] exI [of _ "new @ [?m]"]) (simp add: replay_append)
qed

subsection \<open>What a permutation inside a range preserves\<close>

lemma range_mset:
  assumes len: "length b = length a" and mset: "mset b = mset a"
    and frame: "\<forall>k. k < l \<or> e \<le> k \<longrightarrow> b ! k = a ! k"
    and le: "l \<le> e" "e \<le> length a"
  shows "mset (take (e - l) (drop l b)) = mset (take (e - l) (drop l a))"
proof -
  have split: "xs = take l xs @ take (e - l) (drop l xs) @ drop e xs" if "length xs = length a" for xs :: "'a list"
  proof -
    have "e - l + l = e" using le by simp
    then have "drop (e - l) (drop l xs) = drop e xs" by simp
    then have "drop l xs = take (e - l) (drop l xs) @ drop e xs"
      by (metis append_take_drop_id)
    then show ?thesis by (metis append_take_drop_id)
  qed
  have t: "take l b = take l a"
    using frame len le by (intro nth_equalityI) auto
  have d: "drop e b = drop e a"
    using frame len le by (intro nth_equalityI) auto
  have "mset b = mset (take l b) + mset (take (e - l) (drop l b)) + mset (drop e b)"
    by (subst split [OF len]) (simp only: mset_append add.assoc)
  moreover have "mset a = mset (take l a) + mset (take (e - l) (drop l a)) + mset (drop e a)"
    by (subst split [OF refl]) (simp only: mset_append add.assoc)
  ultimately show ?thesis using mset t d by simp
qed

lemma range_set:
  assumes "l \<le> e" "e \<le> length a"
  shows "set (take (e - l) (drop l a)) = {a ! k | k. l \<le> k \<and> k < e}"
proof safe
  fix x assume "x \<in> set (take (e - l) (drop l a))"
  then obtain i where i: "i < length (take (e - l) (drop l a))" "x = take (e - l) (drop l a) ! i"
    by (auto simp: in_set_conv_nth)
  then have "i < e - l" using assms by simp
  with i assms have "x = a ! (l + i)" by simp
  with \<open>i < e - l\<close> show "\<exists>k. x = a ! k \<and> l \<le> k \<and> k < e"
    by (intro exI [of _ "l + i"]) simp
next
  fix k assume k: "l \<le> k" "k < e"
  then have "k - l < length (take (e - l) (drop l a))" using assms by simp
  moreover have "take (e - l) (drop l a) ! (k - l) = a ! k" using k assms by simp
  ultimately show "a ! k \<in> set (take (e - l) (drop l a))"
    by (metis nth_mem)
qed

lemma range_pred:
  assumes len: "length b = length a" and mset: "mset b = mset a"
    and frame: "\<forall>k. k < l \<or> e \<le> k \<longrightarrow> b ! k = a ! k"
    and le: "l \<le> e" "e \<le> length a"
    and P: "\<forall>k. l \<le> k \<and> k < e \<longrightarrow> P (a ! k)"
    and k: "l \<le> k" "k < e"
  shows "P (b ! k)"
proof -
  have "set (take (e - l) (drop l b)) = set (take (e - l) (drop l a))"
    using range_mset [OF len mset frame le] by (rule mset_eq_setD)
  then have "{b ! k | k. l \<le> k \<and> k < e} = {a ! k | k. l \<le> k \<and> k < e}"
    using range_set [of l e a] range_set [of l e b] le len by simp
  moreover have "b ! k \<in> {b ! k | k. l \<le> k \<and> k < e}" using k by auto
  ultimately obtain k' where "b ! k = a ! k'" "l \<le> k'" "k' < e" by auto
  with P show ?thesis by simp
qed

subsection \<open>Quick sort\<close>

lemma quickSortHelper_log:
  "l \<le> e \<Longrightarrow> e \<le> length a \<Longrightarrow>
   \<exists>a' new. quickSortHelper a (int l) (int e - 1) moves = (a', moves @ new)
      \<and> replay new a = Some a' \<and> (\<forall>m \<in> set new. isSwap m)
      \<and> (\<forall>k. k < l \<or> e \<le> k \<longrightarrow> a' ! k = a ! k)
      \<and> (\<forall>p q. l \<le> p \<and> p \<le> q \<and> q < e \<longrightarrow> a' ! p \<le> a' ! q)"
proof (induction "e - l" arbitrary: l e a moves rule: less_induct)
  case less
  note unfold = quickSortHelper.simps [of a "int l" "int e - 1" moves]
  show ?case
  proof (cases "int l < int e - 1")
    case False
    then have "\<forall>p q. l \<le> p \<and> p \<le> q \<and> q < e \<longrightarrow> a ! p \<le> a ! q"
      by (auto simp: le_less)
    with False unfold show ?thesis
      by (intro exI [of _ a] exI [of _ "[]"]) simp
  next
    case True
    define h where "h = e - 1"
    have h: "l < h" "h < length a" "int e - 1 = int h" "e = h + 1"
      using True less.prems by (auto simp: h_def)
    from partition_log [OF h(1,2), of moves] obtain p a1 new1 where
      part: "partition_lomuto a (int l) (int h) moves = (int p, a1, moves @ new1)"
      and p: "l \<le> p" "p \<le> h" and rep1: "replay new1 a = Some a1"
      and sw1: "\<forall>m \<in> set new1. isSwap m"
      and frame1: "\<forall>k. k < l \<or> h < k \<longrightarrow> a1 ! k = a ! k"
      and lo1: "\<forall>k. l \<le> k \<and> k < p \<longrightarrow> a1 ! k < a1 ! p"
      and hi1: "\<forall>k. p < k \<and> k \<le> h \<longrightarrow> a1 ! p \<le> a1 ! k"
      by blast
    have len1: "length a1 = length a" using rep1 by (rule replay_length)
    have "p - l < e - l" "l \<le> p" "p \<le> length a1" using p h len1 by auto
    from less.hyps [OF this, of "moves @ new1"] obtain a2 new2 where
      run2: "quickSortHelper a1 (int l) (int p - 1) (moves @ new1) = (a2, (moves @ new1) @ new2)"
      and rep2: "replay new2 a1 = Some a2" and sw2: "\<forall>m \<in> set new2. isSwap m"
      and frame2: "\<forall>k. k < l \<or> p \<le> k \<longrightarrow> a2 ! k = a1 ! k"
      and sorted2: "\<forall>i j. l \<le> i \<and> i \<le> j \<and> j < p \<longrightarrow> a2 ! i \<le> a2 ! j"
      by blast
    have len2: "length a2 = length a1" using rep2 by (rule replay_length)
    have mset2: "mset a2 = mset a1" using rep2 sw2 by (rule replay_swaps_mset)
    have "e - (p + 1) < e - l" "p + 1 \<le> e" "e \<le> length a2" using p h len1 len2 less.prems by auto
    from less.hyps [OF this, of "(moves @ new1) @ new2"] obtain a3 new3 where
      run3: "quickSortHelper a2 (int (p + 1)) (int e - 1) ((moves @ new1) @ new2)
          = (a3, ((moves @ new1) @ new2) @ new3)"
      and rep3: "replay new3 a2 = Some a3" and sw3: "\<forall>m \<in> set new3. isSwap m"
      and frame3: "\<forall>k. k < p + 1 \<or> e \<le> k \<longrightarrow> a3 ! k = a2 ! k"
      and sorted3: "\<forall>i j. p + 1 \<le> i \<and> i \<le> j \<and> j < e \<longrightarrow> a3 ! i \<le> a3 ! j"
      by blast
    have len3: "length a3 = length a2" using rep3 by (rule replay_length)
    have mset3: "mset a3 = mset a2" using rep3 sw3 by (rule replay_swaps_mset)
    have eq: "quickSortHelper a (int l) (int e - 1) moves = (a3, moves @ (new1 @ new2 @ new3))"
      using unfold True part run2 run3 h(3) by (simp add: add.commute)
    have rep: "replay (new1 @ new2 @ new3) a = Some a3"
      using rep1 rep2 rep3 by (simp add: replay_append)
    have frame: "\<forall>k. k < l \<or> e \<le> k \<longrightarrow> a3 ! k = a ! k"
      using frame1 frame2 frame3 p h by auto
    have pivot: "a3 ! p = a1 ! p" using frame2 frame3 by simp
    have low: "a3 ! k < a1 ! p" if "l \<le> k" "k < p" for k
    proof -
      have "a2 ! k < a1 ! p"
        using range_pred [OF len2 mset2 frame2 \<open>l \<le> p\<close> \<open>p \<le> length a1\<close>, of "\<lambda>x. x < a1 ! p" k]
          lo1 that by simp
      with frame3 that show ?thesis by simp
    qed
    have high: "a1 ! p \<le> a3 ! k" if "p < k" "k < e" for k
    proof -
      have "\<forall>k. p + 1 \<le> k \<and> k < e \<longrightarrow> a1 ! p \<le> a2 ! k"
        using hi1 frame2 h by auto
      from range_pred [OF len3 mset3 frame3 \<open>p + 1 \<le> e\<close> \<open>e \<le> length a2\<close>,
          of "\<lambda>x. a1 ! p \<le> x" k, OF this] that
      show ?thesis by simp
    qed
    have sorted: "\<forall>i j. l \<le> i \<and> i \<le> j \<and> j < e \<longrightarrow> a3 ! i \<le> a3 ! j"
    proof (intro allI impI)
      fix i j assume ij: "l \<le> i \<and> i \<le> j \<and> j < e"
      consider "j < p" | "i < p" "j = p" | "i < p" "p < j" | "i = p" "j = p" | "i = p" "p < j" | "p < i"
        using ij by linarith
      then show "a3 ! i \<le> a3 ! j"
      proof cases
        case 1
        with ij sorted2 frame3 show ?thesis by simp
      next
        case 2
        with ij low [of i] pivot show ?thesis by simp
      next
        case 3
        with ij low [of i] high [of j] show ?thesis by simp
      next
        case 4
        then show ?thesis by simp
      next
        case 5
        with ij high [of j] pivot show ?thesis by simp
      next
        case 6
        with ij sorted3 show ?thesis by simp
      qed
    qed
    from eq rep sw1 sw2 sw3 frame sorted show ?thesis
      by (intro exI [of _ a3] exI [of _ "new1 @ new2 @ new3"]) auto
  qed
qed

lemma sorted_range_all:
  "\<forall>p q. p \<le> q \<and> q < length xs \<longrightarrow> xs ! p \<le> xs ! q \<Longrightarrow> sorted xs"
  by (simp add: sorted_iff_nth_mono)

lemma quickSort_log:
  "\<exists>array'. quickSortRun array = (array', quickSort array)
     \<and> replay (quickSort array) array = Some array' \<and> sorted array' \<and> mset array' = mset array"
proof -
  from quickSortHelper_log [of 0 "length array" array "[]"] obtain a' new where
    run: "quickSortHelper array 0 (int (length array) - 1) [] = (a', new)"
    and rep: "replay new array = Some a'" and sw: "\<forall>m \<in> set new. isSwap m"
    and sorted: "\<forall>p q. 0 \<le> p \<and> p \<le> q \<and> q < length array \<longrightarrow> a' ! p \<le> a' ! q"
    by auto
  have "length a' = length array" using rep by (rule replay_length)
  with sorted have "sorted a'" by (intro sorted_range_all) simp
  moreover have "mset a' = mset array" using rep sw by (rule replay_swaps_mset)
  ultimately show ?thesis using run rep by (simp add: quickSort_def quickSortRun_def)
qed

section \<open>Heap sort: the log and the result\<close>

lemma heapify_heap:
  assumes "n \<le> length a" "lo \<le> i" "i < n"
    and "\<forall>k. lo \<le> k \<and> k < n \<and> k \<noteq> i \<longrightarrow> heapAt a n k"
    and "\<forall>k. lo \<le> k \<and> (i = 2 * k + 1 \<or> i = 2 * k + 2)
           \<longrightarrow> (2 * i + 1 < n \<longrightarrow> a ! (2 * i + 1) \<le> a ! k) \<and> (2 * i + 2 < n \<longrightarrow> a ! (2 * i + 2) \<le> a ! k)"
  shows "\<exists>a' new. heapify a i n moves = (a', moves @ new)
      \<and> replay new a = Some a' \<and> (\<forall>m \<in> set new. isSwap m)
      \<and> (\<forall>k. lo \<le> k \<and> k < n \<longrightarrow> heapAt a' n k)
      \<and> (\<forall>k. n \<le> k \<or> k < i \<longrightarrow> a' ! k = a ! k)"
  using assms
proof (induction "n - i" arbitrary: i a moves rule: less_induct)
  case less
  let ?left = "2 * i + 1" and ?right = "2 * i + 2"
  let ?l1 = "if ?left < n \<and> a ! ?left > a ! i then ?left else i"
  let ?c = "if ?right < n \<and> a ! ?right > a ! ?l1 then ?right else ?l1"
  define c where "c = ?c"
  have unfold: "heapify a i n moves
      = (if c \<noteq> i then heapify (swap i c a) c n (moves @ [Swap (int i) (int c)]) else (a, moves))"
    unfolding c_def by (subst heapify.simps) (simp only: Let_def)
  show ?case
  proof (cases "c = i")
    case True
    then have "heapAt a n i"
      by (auto simp: heapAt_def c_def split: if_splits)
    with less.prems(4) have "\<forall>k. lo \<le> k \<and> k < n \<longrightarrow> heapAt a n k" by auto
    with True unfold show ?thesis
      by (intro exI [of _ a] exI [of _ "[]"]) simp
  next
    case False
    then have c: "c = ?left \<or> c = ?right" "c < n" "i < c" "a ! i < a ! c"
      by (auto simp: c_def split: if_splits)
    have cl: "?left < n \<longrightarrow> a ! ?left \<le> a ! c"
      by (auto simp: c_def split: if_splits)
    have cr: "?right < n \<longrightarrow> a ! ?right \<le> a ! c"
      by (auto simp: c_def split: if_splits)
    let ?a1 = "swap i c a"
    let ?m = "Swap (int i) (int c) :: 'a move"
    have ic: "i < length a" "c < length a" using less.prems c by auto
    have unfold1: "heapify a i n moves = heapify ?a1 c n (moves @ [?m])"
      using unfold False by simp
    have step: "applyMove ?m a = Some ?a1" using ic by (simp add: inBounds_def)
    have pre4: "\<forall>k. lo \<le> k \<and> k < n \<and> k \<noteq> c \<longrightarrow> heapAt ?a1 n k"
    proof (intro allI impI)
      fix k assume k: "lo \<le> k \<and> k < n \<and> k \<noteq> c"
      show "heapAt ?a1 n k"
      proof (cases "k = i")
        case True
        with c cl cr ic show ?thesis
          by (auto simp: heapAt_def nth_swap)
      next
        case False
        with k less.prems(4) have hk: "heapAt a n k" by simp
        have notc: "2 * k + 1 \<noteq> c" "2 * k + 2 \<noteq> c" using c(1) False by presburger+
        have "2 * k + 1 < n \<longrightarrow> ?a1 ! (2 * k + 1) \<le> a ! k"
          using hk less.prems(5) [rule_format, of k] k c cl cr ic notc
          by (auto simp: heapAt_def nth_swap)
        moreover have "2 * k + 2 < n \<longrightarrow> ?a1 ! (2 * k + 2) \<le> a ! k"
          using hk less.prems(5) [rule_format, of k] k c cl cr ic notc
          by (auto simp: heapAt_def nth_swap)
        moreover have "?a1 ! k = a ! k" using False k ic by (simp add: nth_swap)
        ultimately show ?thesis by (simp add: heapAt_def)
      qed
    qed
    have pre5: "\<forall>k. lo \<le> k \<and> (c = 2 * k + 1 \<or> c = 2 * k + 2)
           \<longrightarrow> (2 * c + 1 < n \<longrightarrow> ?a1 ! (2 * c + 1) \<le> ?a1 ! k)
             \<and> (2 * c + 2 < n \<longrightarrow> ?a1 ! (2 * c + 2) \<le> ?a1 ! k)"
    proof (intro allI impI)
      fix k assume k: "lo \<le> k \<and> (c = 2 * k + 1 \<or> c = 2 * k + 2)"
      with c(1) have "k = i" by presburger
      moreover have "heapAt a n c" using less.prems(4) c less.prems(2) by simp
      ultimately show "(2 * c + 1 < n \<longrightarrow> ?a1 ! (2 * c + 1) \<le> ?a1 ! k)
             \<and> (2 * c + 2 < n \<longrightarrow> ?a1 ! (2 * c + 2) \<le> ?a1 ! k)"
        using ic c by (auto simp: heapAt_def nth_swap)
    qed
    have "n - c < n - i" "n \<le> length ?a1" "lo \<le> c" using c less.prems by auto
    from less.hyps [OF this(1,2,3) c(2) pre4 pre5, of "moves @ [?m]"] obtain a' new where
      run: "heapify ?a1 c n (moves @ [?m]) = (a', (moves @ [?m]) @ new)"
      and rep: "replay new ?a1 = Some a'" and sw: "\<forall>m \<in> set new. isSwap m"
      and heap: "\<forall>k. lo \<le> k \<and> k < n \<longrightarrow> heapAt a' n k"
      and frame: "\<forall>k. n \<le> k \<or> k < c \<longrightarrow> a' ! k = ?a1 ! k"
      by blast
    have frame': "\<forall>k. n \<le> k \<or> k < i \<longrightarrow> a' ! k = a ! k"
      using frame c ic by (auto simp: nth_swap)
    from run unfold1 rep sw heap frame' step show ?thesis
      by (intro exI [of _ a'] exI [of _ "?m # new"]) simp
  qed
qed

lemma heap_root_max:
  assumes "\<forall>k < n. heapAt a n k"
  shows "k < n \<Longrightarrow> a ! k \<le> a ! 0"
proof (induction k rule: less_induct)
  case (less k)
  show ?case
  proof (cases "k = 0")
    case True
    then show ?thesis by simp
  next
    case False
    define p where "p = (k - 1) div 2"
    have p: "p < k" "k = 2 * p + 1 \<or> k = 2 * p + 2" using False by (auto simp: p_def)
    with less.prems assms have "heapAt a n p" by simp
    with p less.prems have "a ! k \<le> a ! p" by (auto simp: heapAt_def)
    moreover have "a ! p \<le> a ! 0" using less.IH [of p] p less.prems by simp
    ultimately show ?thesis by simp
  qed
qed

lemma buildMaxHeapLoop_log:
  assumes "s \<le> length a" and "\<forall>k. s \<le> k \<and> k < length a \<longrightarrow> heapAt a (length a) k"
  shows "\<exists>a' new. buildMaxHeapLoop (int s - 1) a moves = (a', moves @ new)
      \<and> replay new a = Some a' \<and> (\<forall>m \<in> set new. isSwap m)
      \<and> (\<forall>k < length a'. heapAt a' (length a') k)"
  using assms
proof (induction s arbitrary: a moves)
  case 0
  have "buildMaxHeapLoop (int 0 - 1) a moves = (a, moves)"
    by (subst buildMaxHeapLoop.simps) simp
  with 0 show ?case
    by (intro exI [of _ a] exI [of _ "[]"]) simp
next
  case (Suc s)
  have pre5: "\<forall>k. s \<le> k \<and> (s = 2 * k + 1 \<or> s = 2 * k + 2)
           \<longrightarrow> (2 * s + 1 < length a \<longrightarrow> a ! (2 * s + 1) \<le> a ! k)
             \<and> (2 * s + 2 < length a \<longrightarrow> a ! (2 * s + 2) \<le> a ! k)"
    by auto
  have pre4: "\<forall>k. s \<le> k \<and> k < length a \<and> k \<noteq> s \<longrightarrow> heapAt a (length a) k"
    using Suc.prems(2) by auto
  from heapify_heap [OF le_refl le_refl _ pre4 pre5, of moves] Suc.prems(1)
  obtain a1 new1 where
    run1: "heapify a s (length a) moves = (a1, moves @ new1)"
    and rep1: "replay new1 a = Some a1" and sw1: "\<forall>m \<in> set new1. isSwap m"
    and heap1: "\<forall>k. s \<le> k \<and> k < length a \<longrightarrow> heapAt a1 (length a) k"
    by auto
  have len1: "length a1 = length a" using rep1 by (rule replay_length)
  from Suc.IH [of a1 "moves @ new1"] heap1 len1 Suc.prems(1) obtain a' new where
    run: "buildMaxHeapLoop (int s - 1) a1 (moves @ new1) = (a', (moves @ new1) @ new)"
    and rep: "replay new a1 = Some a'" and sw: "\<forall>m \<in> set new. isSwap m"
    and heap: "\<forall>k < length a'. heapAt a' (length a') k"
    by auto
  have "buildMaxHeapLoop (int (Suc s) - 1) a moves = (a', moves @ (new1 @ new))"
    using run1 run by (subst buildMaxHeapLoop.simps) simp
  with rep1 rep sw1 sw heap show ?case
    by (intro exI [of _ a'] exI [of _ "new1 @ new"]) (auto simp: replay_append)
qed

lemma buildMaxHeap_log:
  "\<exists>a' new. buildMaxHeap a moves = (a', moves @ new)
      \<and> replay new a = Some a' \<and> (\<forall>m \<in> set new. isSwap m)
      \<and> (\<forall>k < length a'. heapAt a' (length a') k)"
  unfolding buildMaxHeap_def
  by (rule buildMaxHeapLoop_log) (auto simp: heapAt_def)

lemma heapSortLoop_log:
  assumes "m < length a" and "\<forall>k < m + 1. heapAt a (m + 1) k"
    and "\<forall>p q. m < p \<and> p \<le> q \<and> q < length a \<longrightarrow> a ! p \<le> a ! q"
    and "\<forall>p q. p \<le> m \<and> m < q \<and> q < length a \<longrightarrow> a ! p \<le> a ! q"
  shows "\<exists>a' new. heapSortLoop (int m) a moves = (a', moves @ new)
      \<and> replay new a = Some a' \<and> (\<forall>m \<in> set new. isSwap m) \<and> sorted a'"
  using assms
proof (induction m arbitrary: a moves)
  case 0
  have "heapSortLoop (int 0) a moves = (a, moves)"
    by (subst heapSortLoop.simps) simp
  moreover have "sorted a"
    unfolding sorted_iff_nth_mono
  proof (intro allI impI)
    fix p q assume "p \<le> q" "q < length a"
    with "0.prems"(3) [rule_format, of p q] "0.prems"(4) [rule_format, of p q]
    show "a ! p \<le> a ! q" by (cases "p = 0"; cases "q = 0") auto
  qed
  ultimately show ?case
    by (intro exI [of _ a] exI [of _ "[]"]) simp
next
  case (Suc m)
  let ?e = "Suc m"
  let ?a1 = "swap 0 ?e a"
  let ?m = "Swap 0 (int ?e) :: 'a move"
  have zero: "0 < length a" using Suc.prems(1) by linarith
  note ns = nth_swap [OF zero Suc.prems(1)]
  have step: "applyMove ?m a = Some ?a1"
    using Suc.prems(1) zero by (simp add: inBounds_def del: of_nat_Suc)
  have root: "a ! k \<le> a ! 0" if "k < ?e + 1" for k
    using heap_root_max [OF Suc.prems(2) that] .
  have pre4: "\<forall>k. 0 \<le> k \<and> k < ?e \<and> k \<noteq> 0 \<longrightarrow> heapAt ?a1 ?e k"
  proof (intro allI impI)
    fix k assume k: "0 \<le> k \<and> k < ?e \<and> k \<noteq> 0"
    then have "heapAt a (?e + 1) k" using Suc.prems(2) by simp
    with k Suc.prems(1) show "heapAt ?a1 ?e k"
      by (auto simp: heapAt_def ns)
  qed
  have pre5: "\<forall>k. 0 \<le> k \<and> (0 = 2 * k + 1 \<or> 0 = 2 * k + 2)
           \<longrightarrow> (2 * 0 + 1 < ?e \<longrightarrow> ?a1 ! (2 * 0 + 1) \<le> ?a1 ! k)
             \<and> (2 * 0 + 2 < ?e \<longrightarrow> ?a1 ! (2 * 0 + 2) \<le> ?a1 ! k)"
    by simp
  have "?e \<le> length ?a1" "(0::nat) \<le> 0" "0 < ?e" using Suc.prems(1) by auto
  from heapify_heap [OF this pre4 pre5, of "moves @ [?m]"] obtain a2 new2 where
    run2: "heapify ?a1 0 ?e (moves @ [?m]) = (a2, (moves @ [?m]) @ new2)"
    and rep2: "replay new2 ?a1 = Some a2" and sw2: "\<forall>m \<in> set new2. isSwap m"
    and heap2: "\<forall>k. 0 \<le> k \<and> k < ?e \<longrightarrow> heapAt a2 ?e k"
    and frame2: "\<forall>k. ?e \<le> k \<or> k < 0 \<longrightarrow> a2 ! k = ?a1 ! k"
    by blast
  have len2: "length a2 = length ?a1" using rep2 by (rule replay_length)
  have mset2: "mset a2 = mset ?a1" using rep2 sw2 by (rule replay_swaps_mset)
  have top: "a2 ! ?e = a ! 0" using frame2 Suc.prems(1) by (simp add: ns)
  have rest: "a2 ! q = a ! q" if "?e < q" "q < length a" for q
    using frame2 that Suc.prems(1) by (simp add: ns)
  let ?P = "\<lambda>x. x \<le> a ! 0 \<and> (\<forall>q. ?e < q \<and> q < length a \<longrightarrow> x \<le> a ! q)"
  have "\<forall>k. 0 \<le> k \<and> k < ?e \<longrightarrow> ?P (?a1 ! k)"
  proof (intro allI impI)
    fix k assume k: "0 \<le> k \<and> k < ?e"
    have "?P (a ! ?e)" using root [of ?e] Suc.prems(4) by auto
    moreover have "?P (a ! k)" using root [of k] k Suc.prems(4) by auto
    ultimately show "?P (?a1 ! k)" using k Suc.prems(1) by (auto simp: ns)
  qed
  then have below: "?P (a2 ! k)" if "k < ?e" for k
    using range_pred [OF len2 mset2, of 0 ?e ?P k] frame2 that Suc.prems(1) by auto
  have i2: "\<forall>k < m + 1. heapAt a2 (m + 1) k" using heap2 by simp
  have i3: "\<forall>p q. m < p \<and> p \<le> q \<and> q < length a2 \<longrightarrow> a2 ! p \<le> a2 ! q"
  proof (intro allI impI)
    fix p q assume pq: "m < p \<and> p \<le> q \<and> q < length a2"
    show "a2 ! p \<le> a2 ! q"
    proof (cases "p = ?e")
      case True
      show ?thesis
      proof (cases "q = ?e")
        case True
        with \<open>p = ?e\<close> show ?thesis by simp
      next
        case False
        with True pq len2 have "?e < q" "q < length a" by auto
        with True top rest [of q] Suc.prems(4) [rule_format, of 0 q] show ?thesis by simp
      qed
    next
      case False
      with pq len2 have "?e < p" "?e < q" "p < length a" "q < length a" by auto
      with rest [of p] rest [of q] Suc.prems(3) [rule_format, of p q] pq show ?thesis by simp
    qed
  qed
  have i4: "\<forall>p q. p \<le> m \<and> m < q \<and> q < length a2 \<longrightarrow> a2 ! p \<le> a2 ! q"
  proof (intro allI impI)
    fix p q assume pq: "p \<le> m \<and> m < q \<and> q < length a2"
    then have b: "?P (a2 ! p)" using below [of p] by simp
    show "a2 ! p \<le> a2 ! q"
    proof (cases "q = ?e")
      case True
      with b top show ?thesis by simp
    next
      case False
      with pq len2 have "?e < q" "q < length a" by auto
      with b rest [of q] show ?thesis by simp
    qed
  qed
  have "m < length a2" using Suc.prems(1) len2 by simp
  from Suc.IH [OF this i2 i3 i4, of "(moves @ [?m]) @ new2"] obtain a' new where
    run: "heapSortLoop (int m) a2 ((moves @ [?m]) @ new2) = (a', ((moves @ [?m]) @ new2) @ new)"
    and rep: "replay new a2 = Some a'" and sw: "\<forall>m \<in> set new. isSwap m" and sorted: "sorted a'"
    by blast
  have "nat (1 + int m) = Suc m" by simp
  then have "heapSortLoop (int ?e) a moves = (a', moves @ (?m # new2 @ new))"
    using run2 run by (subst heapSortLoop.simps) simp
  with step rep2 rep sw2 sw sorted show ?case
    by (intro exI [of _ a'] exI [of _ "?m # new2 @ new"]) (auto simp: replay_append)
qed

lemma heapSort_log:
  "\<exists>array'. heapSortRun array = (array', heapSort array)
     \<and> replay (heapSort array) array = Some array' \<and> sorted array' \<and> mset array' = mset array
     \<and> (\<forall>m \<in> set (heapSort array). isSwap m)"
proof -
  from buildMaxHeap_log [of array "[]"] obtain a1 new1 where
    run1: "buildMaxHeap array [] = (a1, new1)"
    and rep1: "replay new1 array = Some a1" and sw1: "\<forall>m \<in> set new1. isSwap m"
    and heap1: "\<forall>k < length a1. heapAt a1 (length a1) k"
    by auto
  have len1: "length a1 = length array" using rep1 by (rule replay_length)
  show ?thesis
  proof (cases "array = []")
    case True
    with len1 have "a1 = []" by simp
    moreover have "heapSortLoop (- 1) [] new1 = ([], new1)"
      by (subst heapSortLoop.simps) simp
    ultimately show ?thesis
      using run1 rep1 sw1 True by (simp add: heapSort_def heapSortRun_def)
  next
    case False
    define m where "m = length array - 1"
    have "1 \<le> length array" using False by (cases array) auto
    then have m: "m < length a1" "m + 1 = length a1" "int (length array) - 1 = int m"
      using len1 by (auto simp: m_def of_nat_diff)
    have "\<forall>k < m + 1. heapAt a1 (m + 1) k" using heap1 m by simp
    moreover have "\<forall>p q. m < p \<and> p \<le> q \<and> q < length a1 \<longrightarrow> a1 ! p \<le> a1 ! q" using m by auto
    moreover have "\<forall>p q. p \<le> m \<and> m < q \<and> q < length a1 \<longrightarrow> a1 ! p \<le> a1 ! q" using m by auto
    ultimately obtain a' new where
      run: "heapSortLoop (int m) a1 new1 = (a', new1 @ new)"
      and rep: "replay new a1 = Some a'" and sw: "\<forall>m \<in> set new. isSwap m" and sorted: "sorted a'"
      using heapSortLoop_log [OF m(1), of new1] by blast
    have all: "\<forall>m \<in> set (new1 @ new). isSwap m" using sw1 sw by auto
    have rep': "replay (new1 @ new) array = Some a'" using rep1 rep by (simp add: replay_append)
    from replay_swaps_mset [OF rep' all] run1 run rep' sorted all m(3) show ?thesis
      by (simp add: heapSort_def heapSortRun_def)
  qed
qed

section \<open>The six engines together\<close>

lemma names:
  assumes "algorithm \<in> set algorithms"
  shows "algorithm = ''bubble'' \<or> algorithm = ''insertion'' \<or> algorithm = ''selection''
    \<or> algorithm = ''heap'' \<or> algorithm = ''quick'' \<or> algorithm = ''merge''"
  using assms unfolding algorithms_def by (simp only: set_simps insert_iff empty_iff simp_thms)

lemma sm_bubble: "sortingMoves ''bubble'' array = bubbleSort array"
  by (simp add: sortingMoves_def)
lemma sm_merge: "sortingMoves ''merge'' array = Some (snd (mergeSort array []))"
  by (simp add: sortingMoves_def)
lemma sm_heap: "sortingMoves ''heap'' array = Some (heapSort array)"
  by (simp add: sortingMoves_def)
lemma sm_quick: "sortingMoves ''quick'' array = Some (quickSort array)"
  by (simp add: sortingMoves_def)
lemma sm_insertion: "sortingMoves ''insertion'' array = Some (insertionSort array)"
  by (simp add: sortingMoves_def)
lemma sm_selection: "sortingMoves ''selection'' array = Some (selectionSort array)"
  by (simp add: sortingMoves_def)
lemma sm_other: "algorithm \<notin> set algorithms \<Longrightarrow> sortingMoves algorithm array = Some []"
  by (simp add: sortingMoves_def algorithms_def)

lemma sortingMoves_sorts:
  assumes "algorithm \<in> set algorithms"
  shows "\<exists>moves array'. sortingMoves algorithm array = Some moves
      \<and> replay moves array = Some array' \<and> sorted array' \<and> mset array' = mset array"
  using names [OF assms]
proof (elim disjE)
  assume alg: "algorithm = ''bubble''"
  from bubbleLoop_log [of array "[]"] obtain array' new where
    "bubbleLoop array [] = Some (array', new)" "replay new array = Some array'"
    "\<forall>m \<in> set new. isSwap m" "sorted array'"
    by auto
  with replay_swaps_mset [of new array array'] show ?thesis
    unfolding alg sm_bubble by (simp add: bubbleSort_def)
next
  assume alg: "algorithm = ''insertion''"
  have "\<forall>p q. p \<le> q \<and> q < 1 \<and> q < length array \<longrightarrow> array ! p \<le> array ! q" by simp
  from insertionFor_log [OF _ this, of "[]"] obtain array' new where
    "insertionFor 1 array [] = (array', new)" "replay new array = Some array'"
    "sorted array'" "mset array' = mset array"
    by auto
  then show ?thesis
    unfolding alg sm_insertion by (simp add: insertionSort_def insertionSortRun_def)
next
  assume alg: "algorithm = ''selection''"
  from selectionLoop_log [of 0 array "[]"] obtain array' new where
    "selectionLoop 0 array [] = (array', new)" "replay new array = Some array'"
    "\<forall>m \<in> set new. isSwap m" "sorted array'"
    by auto
  with replay_swaps_mset [of new array array'] show ?thesis
    unfolding alg sm_selection by (simp add: selectionSort_def selectionSortRun_def)
next
  assume alg: "algorithm = ''heap''"
  from heapSort_log [of array] show ?thesis
    unfolding alg sm_heap by auto
next
  assume alg: "algorithm = ''quick''"
  from quickSort_log [of array] show ?thesis
    unfolding alg sm_quick by auto
next
  assume alg: "algorithm = ''merge''"
  from mergeSort_log [of array "[]"] obtain result new where
    "mergeSort array [] = (result, new)" "replay new array = Some result"
    "sorted result" "mset result = mset array"
    by auto
  then show ?thesis
    unfolding alg sm_merge by simp
qed

lemma sortingMoves_replays:
  "\<exists>moves array'. sortingMoves algorithm array = Some moves \<and> replay moves array = Some array'"
proof (cases "algorithm \<in> set algorithms")
  case True
  from sortingMoves_sorts [OF this, of array] show ?thesis by blast
next
  case False
  then show ?thesis by (simp add: sm_other)
qed

lemma replay_take:
  "replay ms xs = Some ys \<Longrightarrow> \<exists>zs. replay (take k ms) xs = Some zs"
proof -
  assume "replay ms xs = Some ys"
  then have "replay (take k ms @ drop k ms) xs = Some ys" by simp
  then show ?thesis
    unfolding replay_append by (cases "replay (take k ms) xs") auto
qed

section \<open>Playback: one closure ticking alone\<close>

lemma playNotes_fields [simp]:
  "arrays (playNotes m a s) = arrays s" "rendered (playNotes m a s) = rendered s"
  "pending (playNotes m a s) = pending s" "timers (playNotes m a s) = timers s"
  by (cases m; simp add: playNote_def)+


lemma animate_step:
  "applyMove m (arrays s ! own) = Some a' \<Longrightarrow>
   \<exists>s'. animate own (m # rest) s = Some s'
      \<and> arrays s' = (arrays s)[own := a'] @ [a'] \<and> pending s' = Some (length (arrays s))
      \<and> rendered s' = rendered s \<and> timers s' = timers s @ [(own, rest)]
      \<and> tones s' = tones (playNotes m a' s)"
  by (cases m) (simp_all add: animate_def playNote_def)

lemma animate_published:
  assumes "applyMove m (arrays s ! own) = Some a'" and "own < length (arrays s)"
  shows "\<exists>s'. animate own (m # rest) s = Some s' \<and> own < length (arrays s')
      \<and> arrays s' ! own = a' \<and> published own s' \<and> timers s' = timers s @ [(own, rest)]
      \<and> rendered s' = rendered s"
proof -
  from animate_step [OF assms(1), of rest] obtain s' where
    s': "animate own (m # rest) s = Some s'" "arrays s' = (arrays s)[own := a'] @ [a']"
      "pending s' = Some (length (arrays s))" "rendered s' = rendered s"
      "timers s' = timers s @ [(own, rest)]"
    by blast
  have "arrays s' ! own = a'" using s'(2) assms(2) by (simp add: nth_append)
  moreover have "arrays s' ! length (arrays s) = a'" using s'(2) by (simp add: nth_append)
  ultimately show ?thesis
    using s' assms(2) by (auto simp: published_def)
qed

lemma render_published:
  "published own s \<Longrightarrow> published own (render s) \<and> pending (render s) = None
     \<and> arrays (render s) = arrays s \<and> timers (render s) = timers s"
  by (auto simp: published_def render_def split: option.splits)

lemma playback_alone:
  assumes "timers s = [(own, ms)]" and "own < length (arrays s)" and "published own s"
    and "set es \<subseteq> {Timeout, Render}" and "count_list es Timeout \<le> length ms"
    and "replay (take (count_list es Timeout) ms) (arrays s ! own) = Some final"
  shows "\<exists>s'. run es s = Some s' \<and> timers s' = [(own, drop (count_list es Timeout) ms)]
      \<and> own < length (arrays s') \<and> arrays s' ! own = final \<and> published own s'"
  using assms
proof (induction es arbitrary: s ms)
  case Nil
  then show ?case by simp
next
  case (Cons e es)
  from Cons.prems(4) consider "e = Timeout" | "e = Render" by auto
  then show ?case
  proof cases
    case 1
    with Cons.prems(5) obtain m rest where ms: "ms = m # rest" by (cases ms) auto
    with Cons.prems(6) 1 obtain a1 where
      stp: "applyMove m (arrays s ! own) = Some a1"
      and rep: "replay (take (count_list es Timeout) rest) a1 = Some final"
      by (auto split: option.splits)
    have own': "own < length (arrays (s\<lparr>timers := []\<rparr>))" using Cons.prems(2) by simp
    from animate_published [of m "s\<lparr>timers := []\<rparr>" own a1 rest] stp own' obtain s1 where
      s1: "animate own (m # rest) (s\<lparr>timers := []\<rparr>) = Some s1" "own < length (arrays s1)"
        "arrays s1 ! own = a1" "published own s1" "timers s1 = [(own, rest)]"
      by auto
    have fire: "step e s = Some s1"
      using 1 Cons.prems(1) ms s1(1) by (simp add: fire_def)
    have "set es \<subseteq> {Timeout, Render}" "count_list es Timeout \<le> length rest"
      using Cons.prems(4,5) 1 ms by auto
    from Cons.IH [OF s1(5) s1(2) s1(4) this] rep s1(3) obtain s' where
      "run es s1 = Some s'" "timers s' = [(own, drop (count_list es Timeout) rest)]"
      "own < length (arrays s')" "arrays s' ! own = final" "published own s'"
      by auto
    with fire 1 ms show ?thesis by simp
  next
    case 2
    from render_published [OF Cons.prems(3)] have
      r: "published own (render s)" "arrays (render s) = arrays s" "timers (render s) = timers s"
      by auto
    have "set es \<subseteq> {Timeout, Render}" "count_list es Timeout \<le> length ms"
      "replay (take (count_list es Timeout) ms) (arrays (render s) ! own) = Some final"
      using Cons.prems(4,5,6) 2 r by auto
    from Cons.IH [OF _ _ r(1) this] Cons.prems(1,2) r obtain s' where
      "run es (render s) = Some s'" "timers s' = [(own, drop (count_list es Timeout) ms)]"
      "own < length (arrays s')" "arrays s' ! own = final" "published own s'"
      by auto
    with 2 show ?thesis by simp
  qed
qed

lemma run_append:
  "run (es @ fs) s = (case run es s of None \<Rightarrow> None | Some s' \<Rightarrow> run fs s')"
  by (induction es arbitrary: s) (auto split: option.splits)


section \<open>The sift-down tie-break\<close>

text \<open>
  Claim C8. In the sift-down \<^verbatim>\<open>heapify\<close>, when the left and the right child of node
  \<open>i\<close> both lie inside the heap, hold equal values and both exceed the value of the
  parent, the move recorded is the swap of the parent with the left child \<open>2 * i + 1\<close>,
  and the sift-down continues from the left child.
\<close>

theorem heapify_prefers_left:
  assumes "2 * i + 2 < mx"
    and "array ! (2 * i + 1) = array ! (2 * i + 2)"
    and "array ! (2 * i + 1) > array ! i"
  shows "heapify array i mx moves =
           heapify (swap i (2 * i + 1) array) (2 * i + 1) mx
             (moves @ [Swap (int i) (int (2 * i + 1))])"
  using assms by (subst heapify.simps) (simp add: Let_def)

theorem heapify_prefers_left_witness:
  "2 * 0 + 2 < (3::nat) \<and> [1, 2, 2::nat] ! (2 * 0 + 1) = [1, 2, 2] ! (2 * 0 + 2)
     \<and> [1, 2, 2::nat] ! (2 * 0 + 1) > [1, 2, 2] ! 0
     \<and> heapify [1, 2, 2::nat] 0 3 [] = ([2, 1, 2], [Swap 0 1])"
proof -
  have h1: "2 * 0 + 2 < (3::nat)" by simp
  have h2: "[1, 2, 2::nat] ! (2 * 0 + 1) = [1, 2, 2] ! (2 * 0 + 2)" by simp
  have h3: "[1, 2, 2::nat] ! (2 * 0 + 1) > [1, 2, 2] ! 0" by simp
  have r: "heapify (swap 0 (2 * 0 + 1) [1, 2, 2::nat]) (2 * 0 + 1) 3
             ([] @ [Swap (int 0) (int (2 * 0 + 1))]) = ([2, 1, 2], [Swap 0 1])"
    by code_simp
  show ?thesis using heapify_prefers_left [OF h1 h2 h3, of "[]"] h1 h2 h3 r by simp
qed

section \<open>The tones of a playback step\<close>




section \<open>An algorithm name outside the enumeration\<close>

text \<open>
  Claim C4 says that a sort requested under a name outside the six fails with an
  \<open>InvalidAlgorithm\<close> error and produces no log. The code has no such error: the
  \<^verbatim>\<open>switch\<close> ends in \<^verbatim>\<open>default: break\<close>, the log is the empty list it was
  initialised with, and \<^verbatim>\<open>animate\<close> is called on it. At the name \<open>bogo\<close> the call
  returns, with the empty log.
\<close>

theorem unknown_algorithm_no_error:
  "sortingMoves ''bogo'' [0.75, 0.5, 0.25 :: real] = Some [] \<and>
   sortAndAnimate ''bogo''
     \<lparr>arrays = [[0.75, 0.5, 0.25]], rendered = 0, pending = None, audioCtx = True,
      bars = [0.75, 0.5, 0.25], tones = [], timers = []\<rparr> \<noteq> None"
  by (simp add: sortingMoves_def sortAndAnimate_def animate_def)

text \<open>
  Claim C4, amended. For every algorithm name outside the enumeration, requesting a sort
  raises no error: the log produced is empty, and the call only redraws the bars from the
  current array; the array state, the tones and the pending timeouts are unchanged.
\<close>

theorem unknown_algorithm_empty_log:
  assumes "algorithm \<notin> set algorithms"
  shows "sortingMoves algorithm copy = Some [] \<and>
         sortAndAnimate algorithm s = Some (s\<lparr>bars := arrays s ! rendered s\<rparr>)"
  using assms by (simp add: sortingMoves_def sortAndAnimate_def animate_def algorithms_def)

theorem unknown_algorithm_empty_log_witness:
  "''bogo'' \<notin> set algorithms \<and> sortingMoves ''bogo'' [0.75, 0.5, 0.25 :: real] = Some [] \<and>
   sortAndAnimate ''bogo''
     \<lparr>arrays = [[0.75, 0.5, 0.25]], rendered = 0, pending = None, audioCtx = True, bars = [],
      tones = [], timers = []\<rparr>
   = Some \<lparr>arrays = [[0.75, 0.5, 0.25]], rendered = 0, pending = None, audioCtx = True,
            bars = [0.75, 0.5, 0.25], tones = [], timers = []\<rparr>"
proof -
  have h: "''bogo'' \<notin> set algorithms" by (simp add: algorithms_def)
  show ?thesis
    using h unknown_algorithm_empty_log [OF h, of "[0.75, 0.5, 0.25 :: real]"
        "\<lparr>arrays = [[0.75, 0.5, 0.25]], rendered = 0, pending = None, audioCtx = True,
          bars = [], tones = [], timers = []\<rparr>"]
    by simp
qed

section \<open>Termination of bubble sort\<close>

text \<open>
  Claim C10. The bubble engine returns on every array: the \<^verbatim>\<open>do ... while\<close> loop
  performs finitely many passes. A pass that records a swap ends with strictly fewer
  inversions in the working array than it started with, and a pass that records none ends
  the loop with the array and the log as they are.
\<close>

theorem bubbleSort_terminates:
  "(\<exists>moves. bubbleSort array = Some moves) \<and>
   (\<forall>moves array' moves'. bubblePass 1 array moves False = (array', moves', True)
      \<longrightarrow> inversions array' < inversions array) \<and>
   (\<forall>moves array' moves'. bubblePass 1 array moves False = (array', moves', False)
      \<longrightarrow> bubbleLoop array moves = Some (array', moves'))"
proof (intro conjI allI impI)
  from bubbleLoop_log [of array "[]"] show "\<exists>moves. bubbleSort array = Some moves"
    by (auto simp: bubbleSort_def)
next
  fix moves array' moves'
  assume "bubblePass 1 array moves False = (array', moves', True)"
  with bubblePass_log [of 1 array moves False] show "inversions array' < inversions array"
    by (auto simp: neq_Nil_conv)
next
  fix moves array' moves'
  assume "bubblePass 1 array moves False = (array', moves', False)"
  then show "bubbleLoop array moves = Some (array', moves')"
    by (subst bubbleLoop.simps) simp
qed

theorem bubbleSort_terminates_witness:
  "bubbleSort [3, 1, 2 :: nat] = Some [Swap 0 1, Swap 1 2] \<and>
   bubblePass 1 [3, 1, 2 :: nat] [] False = ([1, 2, 3], [Swap 0 1, Swap 1 2], True) \<and>
   inversions [1, 2, 3 :: nat] < inversions [3, 1, 2 :: nat] \<and>
   bubblePass 1 [1, 2, 3 :: nat] [] False = ([1, 2, 3], [], False) \<and>
   bubbleLoop [1, 2, 3 :: nat] [] = Some ([1, 2, 3], [])"
proof -
  have p1: "bubblePass 1 [3, 1, 2 :: nat] [] False = ([1, 2, 3], [Swap 0 1, Swap 1 2], True)"
    by code_simp
  have p2: "bubblePass 1 [1, 2, 3 :: nat] [] False = ([1, 2, 3], [], False)"
    by code_simp
  have r: "bubbleSort [3, 1, 2 :: nat] = Some [Swap 0 1, Swap 1 2]"
    by code_simp
  from bubbleSort_terminates [of "[3, 1, 2 :: nat]"] p1
  have "inversions [1, 2, 3 :: nat] < inversions [3, 1, 2 :: nat]" by blast
  moreover from bubbleSort_terminates [of "[1, 2, 3 :: nat]"] p2
  have "bubbleLoop [1, 2, 3 :: nat] [] = Some ([1, 2, 3], [])" by blast
  ultimately show ?thesis using p1 p2 r by simp
qed

section \<open>Ties in the merge step\<close>

text \<open>
  Claim C2 says that the merge step takes from the left half when the two front elements
  are equal, and that merge sort is therefore stable. The code compares with
  \<^verbatim>\<open>left[leftIndex] < right[rightIndex]\<close> and takes from the right half otherwise,
  so also when the two are equal. On the input \<open>[0.5a, 0.3, 0.5b]\<close> of the claim the two
  equal elements come out in the order \<open>b\<close>, \<open>a\<close>, in the array the engine returns and
  in the array its log replays to.
\<close>

theorem mergeSort_unstable:
  "fst (mergeSort [Tagged 0.5 CHR ''a'', Tagged 0.3 CHR ''c'', Tagged 0.5 CHR ''b''] [])
     = [Tagged 0.3 CHR ''c'', Tagged 0.5 CHR ''b'', Tagged 0.5 CHR ''a'']
   \<and> replay (snd (mergeSort [Tagged 0.5 CHR ''a'', Tagged 0.3 CHR ''c'', Tagged 0.5 CHR ''b''] []))
         [Tagged 0.5 CHR ''a'', Tagged 0.3 CHR ''c'', Tagged 0.5 CHR ''b'']
     = Some [Tagged 0.3 CHR ''c'', Tagged 0.5 CHR ''b'', Tagged 0.5 CHR ''a'']
   \<and> map tag (filter (\<lambda>x. val x = 0.5)
         [Tagged 0.5 CHR ''a'', Tagged 0.3 CHR ''c'', Tagged 0.5 CHR ''b'']) = ''ab''
   \<and> map tag (filter (\<lambda>x. val x = 0.5)
         (fst (mergeSort [Tagged 0.5 CHR ''a'', Tagged 0.3 CHR ''c'', Tagged 0.5 CHR ''b''] [])))
     = ''ba''"
  by code_simp

text \<open>
  Claim C2, amended. The merge step takes from the left half only when its front element
  is strictly less than the front element of the right half; otherwise, and so whenever
  the two are equal, it takes from the right half: it writes the right element at the
  current position, records that overwrite and advances the right counter. Merge sort is
  therefore not stable for elements that are equal in value but distinguishable by origin.
\<close>

theorem merge_takes_right_unless_less:
  assumes "leftIndex < length left" and "rightIndex < length right"
    and "\<not> left ! leftIndex < right ! rightIndex"
  shows "mergeBoth left right leftIndex rightIndex originalIndex originalArray moves
       = mergeBoth left right leftIndex (rightIndex + 1) (originalIndex + 1)
           (store originalArray originalIndex (right ! rightIndex))
           (moves @ [Overwrite (int originalIndex) (right ! rightIndex)])"
  using assms by (subst mergeBoth.simps) simp

theorem merge_takes_right_unless_less_witness:
  "(0::nat) < length [Tagged 0.5 CHR ''a''] \<and> (1::nat) < length [Tagged 0.3 CHR ''c'', Tagged 0.5 CHR ''b'']
   \<and> \<not> [Tagged 0.5 CHR ''a''] ! 0 < [Tagged 0.3 CHR ''c'', Tagged 0.5 CHR ''b''] ! 1
   \<and> mergeBoth [Tagged 0.5 CHR ''a''] [Tagged 0.3 CHR ''c'', Tagged 0.5 CHR ''b''] 0 1 1
        [Tagged 0.3 CHR ''c'', Tagged 0.3 CHR ''c'', Tagged 0.5 CHR ''b''] []
      = (0, 2, 2, [Tagged 0.3 CHR ''c'', Tagged 0.5 CHR ''b'', Tagged 0.5 CHR ''b''],
         [Overwrite 1 (Tagged 0.5 CHR ''b'')])"
proof -
  have h1: "(0::nat) < length [Tagged 0.5 CHR ''a'']" by simp
  have h2: "(1::nat) < length [Tagged 0.3 CHR ''c'', Tagged 0.5 CHR ''b'']" by simp
  have h3: "\<not> [Tagged 0.5 CHR ''a''] ! 0 < [Tagged 0.3 CHR ''c'', Tagged 0.5 CHR ''b''] ! 1"
    by (simp add: less_tagged_def)
  have r: "mergeBoth [Tagged 0.5 CHR ''a''] [Tagged 0.3 CHR ''c'', Tagged 0.5 CHR ''b''] 0 (1 + 1) (1 + 1)
        (store [Tagged 0.3 CHR ''c'', Tagged 0.3 CHR ''c'', Tagged 0.5 CHR ''b''] 1
           ([Tagged 0.3 CHR ''c'', Tagged 0.5 CHR ''b''] ! 1))
        ([] @ [Overwrite (int 1) ([Tagged 0.3 CHR ''c'', Tagged 0.5 CHR ''b''] ! 1)])
      = (0, 2, 2, [Tagged 0.3 CHR ''c'', Tagged 0.5 CHR ''b'', Tagged 0.5 CHR ''b''],
         [Overwrite 1 (Tagged 0.5 CHR ''b'')])"
    by code_simp
  show ?thesis
    using merge_takes_right_unless_less [OF h1 h2 h3, of 1
        "[Tagged 0.3 CHR ''c'', Tagged 0.3 CHR ''c'', Tagged 0.5 CHR ''b'']" "[]"] h1 h2 h3 r
    by simp
qed

section \<open>How many moves the quadratic engines record\<close>

text \<open>
  Claim C7. For an array of length \<open>n\<close>: the bubble engine returns a log with at most
  \<open>n (n - 1) / 2\<close> swaps, the selection engine records at most \<open>n (n - 1) / 2\<close> swaps,
  and the insertion engine records at most \<open>n\<close> overwrites and at most
  \<open>n (n - 1) / 2\<close> swaps.
\<close>

theorem move_count_bounds:
  "(\<exists>moves. bubbleSort array = Some moves
      \<and> countSwaps moves \<le> length array * (length array - 1) div 2)
   \<and> countSwaps (selectionSort array) \<le> length array * (length array - 1) div 2
   \<and> countOverwrites (insertionSort array) \<le> length array
   \<and> countSwaps (insertionSort array) \<le> length array * (length array - 1) div 2"
proof (intro conjI)
  from bubbleLoop_log [of array "[]"] obtain array' new where
    "bubbleLoop array [] = Some (array', new)" "\<forall>m \<in> set new. isSwap m"
    "length new = inversions array"
    by auto
  with count_all_swaps [of new] inversions_bound [of array]
  show "\<exists>moves. bubbleSort array = Some moves
      \<and> countSwaps moves \<le> length array * (length array - 1) div 2"
    by (simp add: bubbleSort_def)
next
  from selectionLoop_log [of 0 array "[]"] obtain array' new where
    "selectionLoop 0 array [] = (array', new)" "\<forall>m \<in> set new. isSwap m"
    "length new \<le> length array - 1 - 0"
    by auto
  with count_all_swaps [of new] half_bound [of "length array"]
  show "countSwaps (selectionSort array) \<le> length array * (length array - 1) div 2"
    by (simp add: selectionSort_def selectionSortRun_def)
next
  from insertionFor_log [of 1 array "[]"] obtain array' new where
    run: "insertionFor 1 array [] = (array', new)"
    and ow: "countOverwrites new \<le> length array - 1"
    and cs: "2 * countSwaps new \<le> length array * (length array - 1) - 1 * (1 - 1)"
    by auto
  from run ow show "countOverwrites (insertionSort array) \<le> length array"
    by (simp add: insertionSort_def insertionSortRun_def)
  from run cs show "countSwaps (insertionSort array) \<le> length array * (length array - 1) div 2"
    by (simp add: insertionSort_def insertionSortRun_def)
qed

theorem move_count_bounds_witness:
  "bubbleSort [3, 2, 1 :: nat] = Some [Swap 0 1, Swap 1 2, Swap 0 1]
   \<and> countSwaps [Swap 0 1, Swap 1 2, Swap 0 1 :: nat move] \<le> 3 * (3 - 1) div 2
   \<and> countSwaps (selectionSort [3, 2, 1 :: nat]) \<le> 3 * (3 - 1) div 2
   \<and> countOverwrites (insertionSort [3, 2, 1 :: nat]) \<le> 3
   \<and> countSwaps (insertionSort [3, 2, 1 :: nat]) \<le> 3 * (3 - 1) div 2"
proof -
  have b: "bubbleSort [3, 2, 1 :: nat] = Some [Swap 0 1, Swap 1 2, Swap 0 1]" by code_simp
  show ?thesis using move_count_bounds [of "[3, 2, 1 :: nat]"] b by simp
qed

section \<open>Replaying a log sorts the array\<close>

text \<open>
  Claim C1. For each of the six engines and every input array, the engine returns a log,
  and replaying this log against the input array, move by move in log order, succeeds
  and yields an array that is sorted in non-decreasing order, has the length of the input
  and holds the same multiset of values. This holds for arrays of every length, so in
  particular for the lengths 0 to 100. For the merge engine the indices in the log are
  those of the sub-arrays being merged, so the intermediate arrays of the replay are not
  those of the engine; the last merge overwrites every position, which is why the final
  array is the sorted one.
\<close>

theorem replay_sorts:
  assumes "algorithm \<in> set algorithms"
  shows "\<exists>moves array'. sortingMoves algorithm array = Some moves
      \<and> replay moves array = Some array'
      \<and> sorted array' \<and> length array' = length array \<and> mset array' = mset array"
proof -
  from sortingMoves_sorts [OF assms, of array] obtain moves array' where
    r: "sortingMoves algorithm array = Some moves" "replay moves array = Some array'"
      "sorted array'" "mset array' = mset array"
    by blast
  from r(2) have "length array' = length array" by (rule replay_length)
  with r show ?thesis by blast
qed

theorem replay_sorts_witness:
  "''quick'' \<in> set algorithms
   \<and> sortingMoves ''quick'' [3, 1, 2 :: nat] = Some [Swap 0 1, Swap 1 2]
   \<and> replay [Swap 0 1, Swap 1 2] [3, 1, 2 :: nat] = Some [1, 2, 3]
   \<and> sorted [1, 2, 3 :: nat] \<and> length [1, 2, 3 :: nat] = length [3, 1, 2 :: nat]
   \<and> mset [1, 2, 3 :: nat] = mset [3, 1, 2]"
proof -
  have h: "''quick'' \<in> set algorithms" by (simp add: algorithms_def)
  have m: "sortingMoves ''quick'' [3, 1, 2 :: nat] = Some [Swap 0 1, Swap 1 2]" by code_simp
  have r: "replay [Swap 0 1, Swap 1 2] [3, 1, 2 :: nat] = Some [1, 2, 3]" by code_simp
  from replay_sorts [OF h, of "[3, 1, 2 :: nat]"] m r h show ?thesis by simp
qed

section \<open>Replaying the log of a sorted array\<close>

text \<open>
  Claim C5. For each of the six engines and every array that is already sorted in
  non-decreasing order, replaying the log the engine returns yields the same array: the
  value at every position is unchanged.
\<close>

theorem replay_sorted_unchanged:
  assumes "algorithm \<in> set algorithms" and "sorted array"
  shows "\<exists>moves. sortingMoves algorithm array = Some moves \<and> replay moves array = Some array"
proof -
  from sortingMoves_sorts [OF assms(1), of array] obtain moves array' where
    r: "sortingMoves algorithm array = Some moves" "replay moves array = Some array'"
      "sorted array'" "mset array' = mset array"
    by blast
  have "sort array = array'" using r(4,3) by (rule properties_for_sort)
  moreover have "sort array = array" using assms(2) by (simp add: sort_key_id_if_sorted)
  ultimately show ?thesis using r by simp
qed

theorem replay_sorted_unchanged_witness:
  "''insertion'' \<in> set algorithms \<and> sorted [1, 1, 2, 3 :: nat]
   \<and> sortingMoves ''insertion'' [1, 1, 2, 3 :: nat]
       = Some [Overwrite 1 1, Overwrite 2 2, Overwrite 3 3]
   \<and> replay [Overwrite 1 1, Overwrite 2 2, Overwrite 3 3] [1, 1, 2, 3 :: nat] = Some [1, 1, 2, 3]"
proof -
  have h: "''insertion'' \<in> set algorithms" by (simp add: algorithms_def)
  have s: "sorted [1, 1, 2, 3 :: nat]" by simp
  have m: "sortingMoves ''insertion'' [1, 1, 2, 3 :: nat]
       = Some [Overwrite 1 1, Overwrite 2 2, Overwrite 3 3]" by code_simp
  from replay_sorted_unchanged [OF h s] h s m show ?thesis by simp
qed

section \<open>Indices of the recorded moves\<close>

text \<open>
  Claim C6. For each of the six engines and every input array of length \<open>n\<close>, every
  index of every move of the returned log is at least 0 and less than \<open>n\<close>.
\<close>

theorem moves_in_bounds:
  assumes "algorithm \<in> set algorithms"
  shows "\<exists>moves. sortingMoves algorithm array = Some moves
      \<and> (\<forall>m \<in> set moves. moveInBounds (length array) m)"
proof -
  from sortingMoves_sorts [OF assms, of array] obtain moves array' where
    "sortingMoves algorithm array = Some moves" "replay moves array = Some array'"
    by blast
  with replay_inBounds [of moves array array'] show ?thesis by blast
qed

theorem moves_in_bounds_witness:
  "''merge'' \<in> set algorithms
   \<and> sortingMoves ''merge'' [3, 1, 2 :: nat]
       = Some [Overwrite 0 1, Overwrite 1 2, Overwrite 0 1, Overwrite 1 2, Overwrite 2 3]
   \<and> moveInBounds (length [3, 1, 2 :: nat]) (Overwrite 0 (1::nat))
   \<and> moveInBounds (length [3, 1, 2 :: nat]) (Overwrite 1 (2::nat))
   \<and> moveInBounds (length [3, 1, 2 :: nat]) (Overwrite 2 (3::nat))"
proof -
  have h: "''merge'' \<in> set algorithms" by (simp add: algorithms_def)
  have m: "sortingMoves ''merge'' [3, 1, 2 :: nat]
       = Some [Overwrite 0 1, Overwrite 1 2, Overwrite 0 1, Overwrite 1 2, Overwrite 2 3]"
    by code_simp
  from moves_in_bounds [OF h, of "[3, 1, 2 :: nat]"] m h show ?thesis by simp
qed


section \<open>A new sort during a playback\<close>

text \<open>
  Claim C3 says that a sort requested while a playback is still advancing cancels that
  playback, so that none of its remaining moves is ever applied, and that the new sort
  starts from the array reached after the moves applied so far. The code has no
  cancellation: \<^verbatim>\<open>sortAndAnimate\<close> clears no timeout, and the closure of the earlier
  playback keeps its own array and its own log. Bubble sort is requested on
  \<open>[0.75, 0.5, 0.25]\<close>, its log being \<open>[Swap 0 1, Swap 1 2, Swap 0 1]\<close>. In the first
  run below insertion sort is requested after the first move has been rendered; the
  timeout that fires next is the one of the bubble playback, which applies its second
  move \<open>Swap 1 2\<close> to its own array, and the next render shows the result
  \<open>[0.5, 0.25, 0.75]\<close>. In the second run the second move of the bubble playback has
  been applied but not rendered when insertion sort is requested: the click handler still
  holds the array of the last render, \<open>[0.5, 0.75, 0.25]\<close>, and insertion sort is seeded
  from it, not from the array \<open>[0.5, 0.25, 0.75]\<close> reached after two moves.
\<close>

theorem stale_playback_continues:
  "sortingMoves ''bubble'' [0.75, 0.5, 0.25 :: real] = Some [Swap 0 1, Swap 1 2, Swap 0 1]
   \<and> run [Click ''bubble'', Render, Click ''insertion'', Timeout, Render]
       \<lparr>arrays = [[0.75, 0.5, 0.25]], rendered = 0, pending = None, audioCtx = True,
        bars = [0.75, 0.5, 0.25], tones = [], timers = []\<rparr>
     = Some \<lparr>arrays = [[0.5, 0.25, 0.75], [0.5, 0.75, 0.25], [0.5, 0.75, 0.25], [0.5, 0.25, 0.75]],
             rendered = 3, pending = None, audioCtx = True, bars = [0.5, 0.25, 0.75],
             tones = [450, 575, 575, 325, 575],
             timers = [(1, [Swap 2 1, Swap 1 0, Overwrite 0 0.25]), (0, [Swap 0 1])]\<rparr>
   \<and> run [Click ''bubble'', Render, Timeout, Click ''insertion'']
       \<lparr>arrays = [[0.75, 0.5, 0.25]], rendered = 0, pending = None, audioCtx = True,
        bars = [0.75, 0.5, 0.25], tones = [], timers = []\<rparr>
     = Some \<lparr>arrays = [[0.5, 0.25, 0.75], [0.5, 0.75, 0.25], [0.5, 0.25, 0.75], [0.5, 0.75, 0.25]],
             rendered = 1, pending = Some 3, audioCtx = True, bars = [0.5, 0.75, 0.25],
             tones = [450, 575, 325, 575, 575],
             timers = [(0, [Swap 0 1]), (1, [Swap 2 1, Swap 1 0, Overwrite 0 0.25])]\<rparr>
   \<and> sortingMoves ''insertion'' [0.5, 0.75, 0.25 :: real]
       = Some [Overwrite 1 0.75, Swap 2 1, Swap 1 0, Overwrite 0 0.25]
   \<and> replay (take 2 [Swap 0 1, Swap 1 2, Swap 0 1]) [0.75, 0.5, 0.25 :: real]
       = Some [0.5, 0.25, 0.75]"
  by code_simp

text \<open>
  Claim C3, amended. Let no playback be pending when algorithm A is requested, let \<open>k\<close>
  of the \<open>m\<close> moves of its log have been applied (\<open>1 \<le> k \<le> m\<close>), with renders committed
  at any moments in between, and let a render have been committed after the \<open>k\<close>-th move
  when algorithm B is requested. Then the array that B's engine sorts and on which B's
  playback starts has exactly the contents reached after A's first \<open>k\<close> moves, and it is
  an object other than A's array. The playback of A is not cancelled: its pending timeout
  stays scheduled, ahead of B's, with A's own array, which B's first step leaves as it
  is, and A's remaining \<open>m - k\<close> moves.
\<close>

theorem new_sort_keeps_stale_playback:
  assumes "rendered s < length (arrays s)" and "timers s = []"
    and "sortingMoves algorithmA (arrays s ! rendered s) = Some movesA"
    and "set es \<subseteq> {Timeout, Render}"
    and "k = Suc (count_list es Timeout)" and "k \<le> length movesA"
  shows "\<exists>arrayK s1. replay (take k movesA) (arrays s ! rendered s) = Some arrayK
      \<and> run (Click algorithmA # es @ [Render]) s = Some s1
      \<and> arrays s1 ! rendered s1 = arrayK \<and> rendered s1 \<noteq> rendered s
      \<and> arrays s1 ! rendered s = arrayK \<and> timers s1 = [(rendered s, drop k movesA)]
      \<and> (\<exists>movesB s2. sortingMoves algorithmB arrayK = Some movesB
            \<and> step (Click algorithmB) s1 = Some s2
            \<and> arrays s2 ! rendered s = arrayK
            \<and> (movesB = [] \<and> timers s2 = [(rendered s, drop k movesA)]
               \<or> (\<exists>m rest arrayB. movesB = m # rest \<and> applyMove m arrayK = Some arrayB
                     \<and> arrays s2 ! rendered s1 = arrayB
                     \<and> timers s2 = [(rendered s, drop k movesA), (rendered s1, rest)])))"
proof -
  let ?own = "rendered s"
  let ?a0 = "arrays s ! ?own"
  let ?n = "count_list es Timeout"
  from sortingMoves_replays [of algorithmA ?a0] assms(3) obtain final where
    "replay movesA ?a0 = Some final" by auto
  from replay_take [OF this, of k] obtain arrayK where
    repK: "replay (take k movesA) ?a0 = Some arrayK" ..
  from assms(5,6) obtain m rest where movesA: "movesA = m # rest" by (cases movesA) auto
  from repK movesA assms(5) obtain a1 where
    stp: "applyMove m ?a0 = Some a1" and rep: "replay (take ?n rest) a1 = Some arrayK"
    by (auto split: option.splits)
  from animate_published [OF stp assms(1), of rest] assms(2) obtain sA where
    sA: "animate ?own (m # rest) s = Some sA" "?own < length (arrays sA)"
      "arrays sA ! ?own = a1" "published ?own sA" "timers sA = [(?own, rest)]"
    by auto
  have click: "step (Click algorithmA) s = Some sA"
    using assms(3) movesA sA(1) by (simp add: sortAndAnimate_def)
  have "?n \<le> length rest" using assms(5,6) movesA by simp
  from playback_alone [OF sA(5) sA(2) sA(4) assms(4) this] rep sA(3) obtain sK where
    sK: "run es sA = Some sK" "timers sK = [(?own, drop ?n rest)]"
      "?own < length (arrays sK)" "arrays sK ! ?own = arrayK" "published ?own sK"
    by auto
  define s1 where "s1 = render sK"
  from render_published [OF sK(5)] have
    r: "published ?own s1" "pending s1 = None" "arrays s1 = arrays sK" "timers s1 = timers sK"
    by (auto simp: s1_def)
  then have seen: "rendered s1 < length (arrays s1)" "rendered s1 \<noteq> ?own"
    "arrays s1 ! rendered s1 = arrayK"
    using sK(4) by (auto simp: published_def)
  have run: "run (Click algorithmA # es @ [Render]) s = Some s1"
    using click sK(1) by (simp add: run_append s1_def)
  have pend: "timers s1 = [(?own, drop k movesA)]"
    using r(4) sK(2) movesA assms(5) by simp
  have ownK: "arrays s1 ! ?own = arrayK" "?own < length (arrays s1)" using r(3) sK(3,4) by auto
  from sortingMoves_replays [of algorithmB arrayK] obtain movesB finalB where
    B: "sortingMoves algorithmB arrayK = Some movesB" "replay movesB arrayK = Some finalB"
    by auto
  have "\<exists>s2. step (Click algorithmB) s1 = Some s2 \<and> arrays s2 ! ?own = arrayK
            \<and> (movesB = [] \<and> timers s2 = [(?own, drop k movesA)]
               \<or> (\<exists>m rest arrayB. movesB = m # rest \<and> applyMove m arrayK = Some arrayB
                     \<and> arrays s2 ! rendered s1 = arrayB
                     \<and> timers s2 = [(?own, drop k movesA), (rendered s1, rest)]))"
  proof (cases movesB)
    case Nil
    with B(1) seen(3) pend ownK show ?thesis
      by (simp add: sortAndAnimate_def animate_def)
  next
    case (Cons mB restB)
    with B(2) obtain arrayB where stepB: "applyMove mB arrayK = Some arrayB"
      by (auto split: option.splits)
    then have stepB': "applyMove mB (arrays s1 ! rendered s1) = Some arrayB"
      using seen(3) by simp
    from animate_step [OF stepB', of restB] obtain s2 where
      s2: "animate (rendered s1) (mB # restB) s1 = Some s2"
        "arrays s2 = (arrays s1)[rendered s1 := arrayB] @ [arrayB]"
        "timers s2 = timers s1 @ [(rendered s1, restB)]"
      by blast
    have "arrays s2 ! ?own = arrayK"
      using s2(2) ownK seen(2) by (simp add: nth_append)
    moreover have "arrays s2 ! rendered s1 = arrayB"
      using s2(2) seen(1) by (simp add: nth_append)
    moreover have "step (Click algorithmB) s1 = Some s2"
      using B(1) Cons s2(1) seen(3) by (simp add: sortAndAnimate_def)
    ultimately show ?thesis using Cons stepB s2(3) pend by simp
  qed
  with repK run seen(2,3) ownK(1) pend B(1) show ?thesis by blast
qed

theorem new_sort_keeps_stale_playback_witness:
  "rendered \<lparr>arrays = [[0.75, 0.5, 0.25]], rendered = 0, pending = None, audioCtx = True,
             bars = [], tones = [], timers = []\<rparr>
     < length (arrays \<lparr>arrays = [[0.75, 0.5, 0.25]], rendered = 0, pending = None,
                      audioCtx = True, bars = [], tones = [], timers = []\<rparr>)
   \<and> sortingMoves ''bubble'' [0.75, 0.5, 0.25 :: real] = Some [Swap 0 1, Swap 1 2, Swap 0 1]
   \<and> set [Render, Timeout] \<subseteq> {Timeout, Render}
   \<and> (2::nat) = Suc (count_list [Render, Timeout] Timeout)
   \<and> (2::nat) \<le> length [Swap 0 1, Swap 1 2, Swap 0 1 :: real move]
   \<and> replay (take 2 [Swap 0 1, Swap 1 2, Swap 0 1]) [0.75, 0.5, 0.25 :: real]
       = Some [0.5, 0.25, 0.75]
   \<and> run (Click ''bubble'' # [Render, Timeout] @ [Render])
       \<lparr>arrays = [[0.75, 0.5, 0.25]], rendered = 0, pending = None, audioCtx = True,
        bars = [], tones = [], timers = []\<rparr>
     = Some \<lparr>arrays = [[0.5, 0.25, 0.75], [0.5, 0.75, 0.25], [0.5, 0.25, 0.75]],
             rendered = 2, pending = None, audioCtx = True, bars = [0.5, 0.25, 0.75],
             tones = [450, 575, 325, 575], timers = [(0, [Swap 0 1])]\<rparr>
   \<and> sortingMoves ''insertion'' [0.5, 0.25, 0.75 :: real]
       = Some [Swap 1 0, Overwrite 0 0.25, Overwrite 2 0.75]
   \<and> (\<exists>s2. step (Click ''insertion'')
               \<lparr>arrays = [[0.5, 0.25, 0.75], [0.5, 0.75, 0.25], [0.5, 0.25, 0.75]],
                rendered = 2, pending = None, audioCtx = True, bars = [0.5, 0.25, 0.75],
                tones = [450, 575, 325, 575], timers = [(0, [Swap 0 1])]\<rparr> = Some s2
         \<and> arrays s2 ! 0 = [0.5, 0.25, 0.75] \<and> arrays s2 ! 2 = [0.25, 0.5, 0.75]
         \<and> timers s2 = [(0, [Swap 0 1]), (2, [Overwrite 0 0.25, Overwrite 2 0.75])])"
proof -
  let ?s = "\<lparr>arrays = [[0.75, 0.5, 0.25]], rendered = 0, pending = None, audioCtx = True,
             bars = [], tones = [], timers = []\<rparr>"
  let ?A = "[Swap 0 1, Swap 1 2, Swap 0 1] :: real move list"
  let ?s1 = "\<lparr>arrays = [[0.5, 0.25, 0.75], [0.5, 0.75, 0.25], [0.5, 0.25, 0.75]],
             rendered = 2, pending = None, audioCtx = True, bars = [0.5, 0.25, 0.75],
             tones = [450, 575, 325, 575], timers = [(0, [Swap 0 1])]\<rparr>"
  have h1: "rendered ?s < length (arrays ?s)" by simp
  have h2: "timers ?s = []" by simp
  have h3: "sortingMoves ''bubble'' (arrays ?s ! rendered ?s) = Some ?A" by code_simp
  have h4: "set [Render, Timeout] \<subseteq> {Timeout, Render}" by simp
  have h5: "(2::nat) = Suc (count_list [Render, Timeout] Timeout)" by simp
  have h6: "(2::nat) \<le> length ?A" by simp
  have r: "replay (take 2 ?A) [0.75, 0.5, 0.25 :: real] = Some [0.5, 0.25, 0.75]" by code_simp
  have run: "run (Click ''bubble'' # [Render, Timeout] @ [Render]) ?s = Some ?s1" by code_simp
  have b: "sortingMoves ''insertion'' [0.5, 0.25, 0.75 :: real]
      = Some [Swap 1 0, Overwrite 0 0.25, Overwrite 2 0.75]" by code_simp
  have a: "applyMove (Swap 1 0) [0.5, 0.25, 0.75 :: real] = Some [0.25, 0.5, 0.75]" by code_simp
  from new_sort_keeps_stale_playback [OF h1 h2 h3 h4 h5 h6, of "''insertion''"] r run b a
  have "\<exists>s2. step (Click ''insertion'') ?s1 = Some s2
         \<and> arrays s2 ! 0 = [0.5, 0.25, 0.75] \<and> arrays s2 ! 2 = [0.25, 0.5, 0.75]
         \<and> timers s2 = [(0, [Swap 0 1]), (2, [Overwrite 0 0.25, Overwrite 2 0.75])]"
    by auto
  with h1 h3 h4 h5 h6 r run b show ?thesis by simp
qed

end
